theory Spec2Isabelle
  imports Main
begin

section \<open>Values, errors and messages\<close>

text \<open>
  The bridge of \<^verbatim>\<open>lib/rpc.js\<close> moves plain data between the host (class \<^verbatim>\<open>Server\<close>)
  and the page (class \<^verbatim>\<open>Client\<close> of \<^verbatim>\<open>installClient\<close>). A JavaScript value is
  one of the shapes below; \<open>JFun\<close> stands for a callable value (\<^verbatim>\<open>typeof v === 'function'\<close>),
  told apart by a number, the identity of the function. Numbers on the wire are the integers.
\<close>

datatype jsval =
    JUndefined
  | JNull
  | JBool bool
  | JNum int
  | JStr string
  | JArr "jsval list"
  | JObj "(string \<times> jsval) list"
  | JFun nat

text \<open>What \<^verbatim>\<open>if (v)\<close> tests.\<close>

fun truthy :: "jsval \<Rightarrow> bool" where
  "truthy JUndefined = False"
| "truthy JNull = False"
| "truthy (JBool b) = b"
| "truthy (JNum n) = (n \<noteq> 0)"
| "truthy (JStr s) = (s \<noteq> [])"
| "truthy (JArr _) = True"
| "truthy (JObj _) = True"
| "truthy (JFun _) = True"

text \<open>
  A field that is absent reads as \<^verbatim>\<open>undefined\<close>; a field of the wire schema that holds a
  string is truthy when the string is not empty.
\<close>

fun field_truthy :: "jsval option \<Rightarrow> bool" where
  "field_truthy None = False"
| "field_truthy (Some v) = truthy v"

fun name_truthy :: "string option \<Rightarrow> bool" where
  "name_truthy None = False"
| "name_truthy (Some s) = (s \<noteq> [])"

text \<open>
  The code has no error classes of its own: what it raises is the runtime's
  \<^verbatim>\<open>TypeError\<close> (a property read on \<^verbatim>\<open>undefined\<close>, a call of something that is not
  callable, \<^verbatim>\<open>new undefined()\<close>, a spread of \<^verbatim>\<open>undefined\<close>), or whatever a host
  method or a getter throws.
\<close>

datatype error = TypeError | Thrown jsval

text \<open>
  A message is an object with some of the fields of the wire schema, typed as the schema
  types them; \<open>None\<close> is an absent field. The field \<^verbatim>\<open>method\<close> is \<open>method_name\<close>
  here.
\<close>

record message =
  create :: "string option"
  lookup :: "string option"
  dispose :: "jsval option"
  objectId :: "string option"
  method_name :: "string option"
  args :: "jsval list option"
  id :: "nat option"
  result :: "jsval option"

definition no_fields :: message where
  "no_fields = \<lparr>create = None, lookup = None, dispose = None, objectId = None,
     method_name = None, args = None, id = None, result = None\<rparr>"

section \<open>Host objects\<close>

text \<open>
  \<^verbatim>\<open>describe_\<close> reads the own properties of \<^verbatim>\<open>o.__proto__\<close>. A prototype is the list
  of its own properties in the order they were created; a key is a string or a symbol; a
  property holds a value, or is an accessor, given by what reading it yields (the getter's
  result, or what the getter throws; \<^verbatim>\<open>undefined\<close> when there is no getter).
\<close>

datatype pkey = KStr string | KSym nat

datatype property = Data jsval | Accessor "error + jsval"

type_synonym proto = "(pkey \<times> property) list"

text \<open>
  A host method is run on the object's private state and the arguments of the call. It
  may call \<^verbatim>\<open>this.emit(event, ...args)\<close> any number of times, then returns or raises
  (a returned promise that is later rejected counts as raising: the dispatcher awaits it).
\<close>

record call_result =
  emitted :: "(string \<times> jsval list) list"
  returned :: "error + jsval"
  new_state :: jsval

type_synonym hmethod = "jsval \<Rightarrow> jsval list \<Rightarrow> call_result"

text \<open>
  A host object: the own properties of its immediate prototype (\<open>None\<close> when
  \<^verbatim>\<open>o.__proto__\<close> is not an object), its \<^verbatim>\<open>emit\<close> slot (\<open>Some objectId\<close> once the
  Server has stored there its closure over that \<^verbatim>\<open>objectId\<close>), the callable properties
  that \<^verbatim>\<open>o[name]\<close> finds (own or inherited, the \<^verbatim>\<open>emit\<close> slot apart), and its state.
\<close>

record hobject =
  hproto :: "proto option"
  hemit :: "string option"
  hmeths :: "string \<rightharpoonup> hmethod"
  hstate :: jsval

subsection \<open>Property keys in enumeration order\<close>

text \<open>
  \<^verbatim>\<open>Object.getOwnPropertyDescriptors(proto)\<close> has one property per own key of the
  prototype, and \<^verbatim>\<open>for (const name in ...)\<close> walks its string keys: first the keys that
  are array indices (the decimal numerals of 0 to 2^32 - 2, with no leading zero), by
  value, then the other strings in the order of creation. Symbols are skipped. This is
  the order of ECMAScript's OrdinaryOwnPropertyKeys, which both the list of descriptors
  and the enumeration of its keys follow: \<^verbatim>\<open>class A { b() {} 1() {} }\<close> has the keys
  \<^verbatim>\<open>1\<close>, \<^verbatim>\<open>constructor\<close>, \<^verbatim>\<open>b\<close>.
\<close>

definition is_digit :: "char \<Rightarrow> bool" where
  "is_digit c = (c \<in> set ''0123456789'')"

definition digit_val :: "char \<Rightarrow> nat" where
  "digit_val c = of_char c - 48"

definition parse_nat :: "string \<Rightarrow> nat" where
  "parse_nat s = foldl (\<lambda>a c. 10 * a + digit_val c) 0 s"

definition is_array_index :: "string \<Rightarrow> bool" where
  "is_array_index s =
     (s \<noteq> [] \<and> list_all is_digit s \<and> (hd s = CHR ''0'' \<longrightarrow> length s = 1)
      \<and> length s \<le> 10 \<and> int (parse_nat s) < 4294967295)"

fun string_keys :: "proto \<Rightarrow> string list" where
  "string_keys [] = []"
| "string_keys ((KStr s, _) # ps) = s # string_keys ps"
| "string_keys ((KSym _, _) # ps) = string_keys ps"

definition for_in_keys :: "proto \<Rightarrow> string list" where
  "for_in_keys ps =
     sort_key parse_nat (filter is_array_index (string_keys ps))
       @ filter (\<lambda>s. \<not> is_array_index s) (string_keys ps)"

text \<open>\<^verbatim>\<open>proto[name]\<close>: the value of the own property, a getter being run.\<close>

fun get_prop :: "proto \<Rightarrow> string \<Rightarrow> error + jsval" where
  "get_prop [] name = Inr JUndefined"
| "get_prop ((k, p) # ps) name =
     (if k = KStr name then (case p of Data v \<Rightarrow> Inr v | Accessor r \<Rightarrow> r)
      else get_prop ps name)"

fun is_function :: "jsval \<Rightarrow> bool" where
  "is_function (JFun _) = True"
| "is_function _ = False"

text \<open>The loop of \<^verbatim>\<open>describe_\<close> over the names, \<open>methods\<close> being the array built so far.\<close>

fun describe_loop :: "proto \<Rightarrow> string list \<Rightarrow> string list \<Rightarrow> error + string list" where
  "describe_loop proto [] methods = Inr methods"
| "describe_loop proto (name # names) methods =
     (if name = ''constructor'' then describe_loop proto names methods
      else (case get_prop proto name of
              Inl e \<Rightarrow> Inl e
            | Inr v \<Rightarrow>
                if is_function v then describe_loop proto names (methods @ [name])
                else describe_loop proto names methods))"

definition describe :: "hobject \<Rightarrow> error + string list" where
  "describe o' =
     (case hproto o' of
        None \<Rightarrow> Inl TypeError
      | Some proto \<Rightarrow> describe_loop proto (for_in_keys proto) [])"

section \<open>The Server\<close>

text \<open>
  Isabelle names do not end in an underscore, so \<^verbatim>\<open>lastObjectId_\<close>, \<^verbatim>\<open>onMessage_\<close>
  and the like lose theirs. The Server's fields are those of the constructor; \<open>heap\<close>
  is the host's memory, in which the objects live that the catalogs and the registry refer
  to (\<open>nextAddr\<close> is the next free address). A class is given by its name and by the
  object that \<^verbatim>\<open>new c()\<close> builds. A value of the registry is an address, or \<open>None\<close> for
  \<^verbatim>\<open>undefined\<close>, which a lookup of an unknown service stores there. The counters
  \<^verbatim>\<open>lastObjectId_\<close> and \<^verbatim>\<open>lastId_\<close> are natural numbers: they start at 0 and go up by
  one, and JavaScript's numbers are exact on the integers below 2^53.
\<close>

record hclass =
  cname :: string
  constructs :: hobject

record server =
  lastObjectId :: nat
  factories :: "string \<rightharpoonup> hclass"
  services :: "string \<rightharpoonup> nat"
  objects :: "string \<rightharpoonup> nat option"
  heap :: "nat \<Rightarrow> hobject"
  nextAddr :: nat

definition new_object :: hobject where
  "new_object = \<lparr>hproto = None, hemit = None, hmeths = Map.empty, hstate = JUndefined\<rparr>"

definition Server :: server where
  "Server = \<lparr>lastObjectId = 0, factories = Map.empty, services = Map.empty,
     objects = Map.empty, heap = (\<lambda>_. new_object), nextAddr = 0\<rparr>"

definition exposeFactory :: "server \<Rightarrow> hclass \<Rightarrow> server" where
  "exposeFactory s c = s\<lparr>factories := (factories s)(cname c \<mapsto> c)\<rparr>"

definition exposeObject :: "server \<Rightarrow> string \<Rightarrow> nat \<Rightarrow> server" where
  "exposeObject s name object = s\<lparr>services := (services s)(name \<mapsto> object)\<rparr>"

text \<open>A host object placed in the host's memory; the result is its address.\<close>

definition alloc :: "server \<Rightarrow> hobject \<Rightarrow> server \<times> nat" where
  "alloc s obj = (s\<lparr>heap := (heap s)(nextAddr s := obj), nextAddr := nextAddr s + 1\<rparr>, nextAddr s)"

subsection \<open>Object identifiers\<close>

text \<open>A number in a template literal is written in decimal.\<close>

definition digit_char :: "nat \<Rightarrow> char" where
  "digit_char d = ''0123456789'' ! d"

fun show_nat :: "nat \<Rightarrow> string" where
  "show_nat n = (if n < 10 then [digit_char n] else show_nat (n div 10) @ [digit_char (n mod 10)])"

declare show_nat.simps [simp del]

text \<open>\<^verbatim>\<open>`${kind}#${name}#${n}#`\<close>, the template of both branches.\<close>

definition mint :: "string \<Rightarrow> string \<Rightarrow> nat \<Rightarrow> string" where
  "mint kind name n = kind @ ''#'' @ name @ ''#'' @ show_nat n @ ''#''"

subsection \<open>Handling one message\<close>

text \<open>
  What one run of \<^verbatim>\<open>onMessage_\<close> does: the Server afterwards, the messages handed to
  \<^verbatim>\<open>sendMessage_\<close> in order, the error that rejects the returned promise if any, and
  the value given to the local \<^verbatim>\<open>objectId\<close> if the run got that far.
\<close>

record outcome =
  state :: server
  sent :: "message list"
  thrown :: "error option"
  minted :: "string option"

text \<open>
  The closure stored in \<^verbatim>\<open>object.emit\<close> sends \<^verbatim>\<open>{objectId, method, args}\<close>.
  \<open>emit_closure\<close> is a call of the object's \<^verbatim>\<open>emit\<close> by host code; before the Server
  has stored its closure there, the call is not the Server's and nothing is sent through it.
\<close>

definition event_message :: "string \<Rightarrow> string \<Rightarrow> jsval list \<Rightarrow> message" where
  "event_message oid event as =
     no_fields\<lparr>objectId := Some oid, method_name := Some event, args := Some as\<rparr>"

definition emit_closure :: "hobject \<Rightarrow> string \<Rightarrow> jsval list \<Rightarrow> message list" where
  "emit_closure object event as =
     (case hemit object of None \<Rightarrow> [] | Some oid \<Rightarrow> [event_message oid event as])"

text \<open>
  The same closure called with the arguments of an invoke message, whose first, if any, is
  the event name. The typed message has no place for an event name that is not a string;
  the field is left out then.
\<close>

definition emit_remote :: "string \<Rightarrow> jsval list \<Rightarrow> message" where
  "emit_remote oid as =
     (case as of
        JStr event # rest \<Rightarrow> event_message oid event rest
      | _ \<Rightarrow> no_fields\<lparr>objectId := Some oid, args := Some (tl as)\<rparr>)"

definition rejected :: "server \<Rightarrow> message list \<Rightarrow> error \<Rightarrow> string option \<Rightarrow> outcome" where
  "rejected s ms e i = \<lparr>state = s, sent = ms, thrown = Some e, minted = i\<rparr>"

text \<open>
  Lines 69 to 75, shared by both branches: store the object, overwrite its \<^verbatim>\<open>emit\<close>,
  describe it and reply. \<open>object\<close> is \<open>None\<close> when the service is unknown; the write to
  \<^verbatim>\<open>object.emit\<close> raises then, after the registry has been written.
\<close>

definition register :: "server \<Rightarrow> message \<Rightarrow> string \<Rightarrow> nat option \<Rightarrow> outcome" where
  "register s message oid object =
     (let s1 = s\<lparr>objects := (objects s)(oid \<mapsto> object)\<rparr> in
      case object of
        None \<Rightarrow> rejected s1 [] TypeError (Some oid)
      | Some a \<Rightarrow>
          let s2 = s1\<lparr>heap := (heap s1)(a := (heap s1 a)\<lparr>hemit := Some oid\<rparr>)\<rparr> in
          (case describe (heap s2 a) of
             Inl e \<Rightarrow> rejected s2 [] e (Some oid)
           | Inr methods \<Rightarrow>
               \<lparr>state = s2,
                sent = [no_fields\<lparr>id := id message,
                          result := Some (JObj [(''methods'', JArr (map JStr methods)),
                                                (''objectId'', JStr oid)])\<rparr>],
                thrown = None, minted = Some oid\<rparr>))"

definition objects_get :: "server \<Rightarrow> string option \<Rightarrow> nat option" where
  "objects_get s k =
     (case k of None \<Rightarrow> None
      | Some oid \<Rightarrow> (case objects s oid of None \<Rightarrow> None | Some v \<Rightarrow> v))"

text \<open>
  Lines 83 to 85. The awaited call is taken as one step: the reply is built from the
  message and the result alone, whatever is handled while the call is pending. A property
  read on an object that is \<^verbatim>\<open>undefined\<close>, a spread of absent \<^verbatim>\<open>args\<close> and a call of
  what is not callable raise.
\<close>

definition invoke :: "server \<Rightarrow> message \<Rightarrow> outcome" where
  "invoke s message =
     (case objects_get s (objectId message) of
        None \<Rightarrow> rejected s [] TypeError None
      | Some a \<Rightarrow>
          let object = heap s a;
              key = (case method_name message of None \<Rightarrow> ''undefined'' | Some k \<Rightarrow> k);
              reply = (\<lambda>v. no_fields\<lparr>id := id message, objectId := objectId message,
                                     result := Some v\<rparr>)
          in (case args message of
                None \<Rightarrow> rejected s [] TypeError None
              | Some as \<Rightarrow>
                  (case (if key = ''emit'' then hemit object else None) of
                     Some oid \<Rightarrow>
                       \<lparr>state = s, sent = [emit_remote oid as, reply JUndefined],
                        thrown = None, minted = None\<rparr>
                   | None \<Rightarrow>
                       (case hmeths object key of
                          None \<Rightarrow> rejected s [] TypeError None
                        | Some f \<Rightarrow>
                            let r = f (hstate object) as;
                                s1 = s\<lparr>heap := (heap s)(a := object\<lparr>hstate := new_state r\<rparr>)\<rparr>;
                                events = concat (map (\<lambda>(event, eas). emit_closure object event eas)
                                                     (emitted r))
                            in (case returned r of
                                  Inl e \<Rightarrow> rejected s1 events e None
                                | Inr v \<Rightarrow>
                                    \<lparr>state = s1, sent = events @ [reply v],
                                     thrown = None, minted = None\<rparr>)))))"

definition onMessage :: "server \<Rightarrow> message \<Rightarrow> outcome" where
  "onMessage s message =
     (if name_truthy (create message) \<or> name_truthy (lookup message) then
        (if name_truthy (create message) then
           (case factories s (the (create message)) of
              None \<Rightarrow> rejected s [] TypeError None
            | Some c \<Rightarrow>
                let (s1, object) = alloc s (constructs c);
                    n = lastObjectId s1 + 1;
                    oid = mint ''create'' (the (create message)) n
                in register (s1\<lparr>lastObjectId := n\<rparr>) message oid (Some object))
         else
           (let object = services s (the (lookup message));
                n = lastObjectId s + 1;
                oid = mint ''lookup'' (the (lookup message)) n
            in register (s\<lparr>lastObjectId := n\<rparr>) message oid object))
      else if field_truthy (dispose message) then
        \<lparr>state = (case objectId message of
                     None \<Rightarrow> s
                   | Some oid \<Rightarrow> s\<lparr>objects := (objects s)(oid := None)\<rparr>),
         sent = [], thrown = None, minted = None\<rparr>
      else invoke s message)"

text \<open>The messages of a list handled one after the other, each on the state the last left.\<close>

fun serve :: "server \<Rightarrow> message list \<Rightarrow> outcome list" where
  "serve s [] = []"
| "serve s (m # ms) = onMessage s m # serve (state (onMessage s m)) ms"

fun serve_state :: "server \<Rightarrow> message list \<Rightarrow> server" where
  "serve_state s [] = s"
| "serve_state s (m # ms) = serve_state (state (onMessage s m)) ms"

section \<open>The Client\<close>

subsection \<open>The page's EventEmitter\<close>

text \<open>
  A handler is a function of the page, told apart by a number (its identity). \<open>stubs\<close>
  are the method names for which \<^verbatim>\<open>wrap_\<close> attached a stub to the object.
\<close>

record emitter =
  emitter_objectId :: string
  listeners :: "string \<rightharpoonup> nat list"
  stubs :: "string list"

definition EventEmitter :: "string \<Rightarrow> emitter" where
  "EventEmitter oid = \<lparr>emitter_objectId = oid, listeners = Map.empty, stubs = []\<rparr>"

definition on :: "emitter \<Rightarrow> string \<Rightarrow> nat \<Rightarrow> emitter" where
  "on e event handler =
     (case listeners e event of
        None \<Rightarrow> e\<lparr>listeners := (listeners e)(event \<mapsto> [] @ [handler])\<rparr>
      | Some ls \<Rightarrow> e\<lparr>listeners := (listeners e)(event \<mapsto> ls @ [handler])\<rparr>)"

text \<open>
  \<^verbatim>\<open>off\<close> assigns the filtered array to its local variable \<^verbatim>\<open>listeners\<close> and returns:
  neither the array in the map nor the map is written.
\<close>

definition off :: "emitter \<Rightarrow> string \<Rightarrow> nat \<Rightarrow> emitter" where
  "off e event handler =
     (case listeners e event of
        None \<Rightarrow> e
      | Some ls \<Rightarrow> (let ls' = filter (\<lambda>a. a \<noteq> handler) ls in e))"

text \<open>
  \<^verbatim>\<open>emit_\<close>: the calls made, in order, each a handler with the arguments it is given.
  The handlers are taken to return and to leave the listeners alone.
\<close>

definition emit :: "emitter \<Rightarrow> string \<Rightarrow> jsval list \<Rightarrow> (nat \<times> jsval list) list" where
  "emit e event as =
     (case listeners e event of
        None \<Rightarrow> []
      | Some ls \<Rightarrow> map (\<lambda>listener. (listener, as)) ls)"

subsection \<open>Requests and responses\<close>

text \<open>
  \<open>promises\<close> holds the promises made by \<^verbatim>\<open>sendMessage_\<close>, a promise being its index:
  \<open>None\<close> while pending, \<open>Some v\<close> once fulfilled with \<open>v\<close>. A value of \<open>callbacks\<close> is
  the \<^verbatim>\<open>fulfil\<close> function of the promise at that index. \<open>rpcSent\<close> are the messages
  handed to \<^verbatim>\<open>rpcSend\<close>.
\<close>

record client =
  lastId :: nat
  callbacks :: "nat \<rightharpoonup> nat"
  client_objects :: "string \<rightharpoonup> emitter"
  promises :: "jsval option list"
  rpcSent :: "message list"

definition Client :: client where
  "Client = \<lparr>lastId = 0, callbacks = Map.empty, client_objects = Map.empty,
     promises = [], rpcSent = []\<rparr>"

text \<open>Only the first call of a promise's \<^verbatim>\<open>fulfil\<close> settles it.\<close>

definition fulfil :: "jsval option list \<Rightarrow> nat \<Rightarrow> jsval \<Rightarrow> jsval option list" where
  "fulfil ps p v = (if p < length ps \<and> ps ! p = None then ps[p := Some v] else ps)"

definition client_sendMessage :: "client \<Rightarrow> message \<Rightarrow> client \<times> nat" where
  "client_sendMessage c message =
     (let n = lastId c + 1;
          message1 = message\<lparr>id := Some n\<rparr>;
          p = length (promises c)
      in (c\<lparr>lastId := n,
            promises := promises c @ [None],
            callbacks := (callbacks c)(n \<mapsto> p),
            rpcSent := rpcSent c @ [message1]\<rparr>, p))"

text \<open>
  \<^verbatim>\<open>onMessage_\<close> of the Client, which is \<^verbatim>\<open>dispatchMessage\<close>: the Client afterwards
  and the handler calls made, or the error raised. A missing callback makes the call of
  \<^verbatim>\<open>undefined\<close> raise; so does \<^verbatim>\<open>.emit_\<close> read on a proxy that is not in the map.
\<close>

definition client_onMessage ::
    "client \<Rightarrow> message \<Rightarrow> error + client \<times> (nat \<times> jsval list) list" where
  "client_onMessage c message =
     (case id message of
        Some n \<Rightarrow>
          (case callbacks c n of
             None \<Rightarrow> Inl TypeError
           | Some p \<Rightarrow>
               Inr (c\<lparr>promises := fulfil (promises c) p
                          (case result message of None \<Rightarrow> JUndefined | Some v \<Rightarrow> v)\<rparr>, []))
      | None \<Rightarrow>
          (case (case objectId message of None \<Rightarrow> None | Some oid \<Rightarrow> client_objects c oid) of
             None \<Rightarrow> Inl TypeError
           | Some e \<Rightarrow>
               (case args message of
                  None \<Rightarrow> Inl TypeError
                | Some as \<Rightarrow>
                    Inr (c, case method_name message of None \<Rightarrow> [] | Some event \<Rightarrow> emit e event as))))"

subsection \<open>Proxies\<close>

text \<open>
  \<^verbatim>\<open>create\<close> and \<^verbatim>\<open>lookup\<close> send the request; when the promise is fulfilled they call
  \<^verbatim>\<open>wrap_\<close> on the \<^verbatim>\<open>objectId\<close> and the \<^verbatim>\<open>methods\<close> of the result. \<^verbatim>\<open>wrap_\<close> makes
  a fresh emitter, stores it under the \<^verbatim>\<open>objectId\<close> and attaches a stub for each method
  name. The names are taken to differ from the emitter's own members (\<^verbatim>\<open>on\<close>, \<^verbatim>\<open>off\<close>,
  \<^verbatim>\<open>emit_\<close>, \<^verbatim>\<open>listeners_\<close>, \<^verbatim>\<open>objectId_\<close>), which a stub of that name would replace.
\<close>

definition client_create :: "client \<Rightarrow> string \<Rightarrow> client \<times> nat" where
  "client_create c service = client_sendMessage c (no_fields\<lparr>create := Some service\<rparr>)"

definition client_lookup :: "client \<Rightarrow> string \<Rightarrow> client \<times> nat" where
  "client_lookup c name = client_sendMessage c (no_fields\<lparr>lookup := Some name\<rparr>)"

definition wrap :: "client \<Rightarrow> string \<Rightarrow> string list \<Rightarrow> client" where
  "wrap c oid methods =
     c\<lparr>client_objects := (client_objects c)(oid \<mapsto> (EventEmitter oid)\<lparr>stubs := methods\<rparr>)\<rparr>"

text \<open>A stub of the proxy for \<open>oid\<close>, and the proxy's \<^verbatim>\<open>dispose\<close>.\<close>

definition proxy_call :: "client \<Rightarrow> string \<Rightarrow> string \<Rightarrow> jsval list \<Rightarrow> client \<times> nat" where
  "proxy_call c oid m as =
     client_sendMessage c (no_fields\<lparr>method_name := Some m, objectId := Some oid, args := Some as\<rparr>)"

definition proxy_dispose :: "client \<Rightarrow> string \<Rightarrow> client" where
  "proxy_dispose c oid =
     (let (c1, p) = client_sendMessage c
                      (no_fields\<lparr>dispose := Some (JStr ''dispose''), objectId := Some oid\<rparr>)
      in c1\<lparr>client_objects := (client_objects c1)(oid := None)\<rparr>)"

text \<open>\<^verbatim>\<open>on\<close> and \<^verbatim>\<open>off\<close> called on the proxy that the Client holds for \<open>oid\<close>.\<close>

definition proxy_on :: "client \<Rightarrow> string \<Rightarrow> string \<Rightarrow> nat \<Rightarrow> client" where
  "proxy_on c oid event handler =
     (case client_objects c oid of
        None \<Rightarrow> c
      | Some e \<Rightarrow> c\<lparr>client_objects := (client_objects c)(oid \<mapsto> on e event handler)\<rparr>)"

definition proxy_off :: "client \<Rightarrow> string \<Rightarrow> string \<Rightarrow> nat \<Rightarrow> client" where
  "proxy_off c oid event handler =
     (case client_objects c oid of
        None \<Rightarrow> c
      | Some e \<Rightarrow> c\<lparr>client_objects := (client_objects c)(oid \<mapsto> off e event handler)\<rparr>)"

text \<open>What the page and the channel can do to the Client, and a run of such steps.\<close>

datatype client_op =
    Create string
  | Lookup string
  | Call string string "jsval list"
  | Dispose string
  | Wrap string "string list"
  | On string string nat
  | Off string string nat
  | Dispatch message

fun client_step :: "client \<Rightarrow> client_op \<Rightarrow> client" where
  "client_step c (Create service) = fst (client_create c service)"
| "client_step c (Lookup name) = fst (client_lookup c name)"
| "client_step c (Call oid m as) = fst (proxy_call c oid m as)"
| "client_step c (Dispose oid) = proxy_dispose c oid"
| "client_step c (Wrap oid methods) = wrap c oid methods"
| "client_step c (On oid event handler) = proxy_on c oid event handler"
| "client_step c (Off oid event handler) = proxy_off c oid event handler"
| "client_step c (Dispatch message) =
     (case client_onMessage c message of Inl e \<Rightarrow> c | Inr (c1, calls) \<Rightarrow> c1)"

fun client_run :: "client \<Rightarrow> client_op list \<Rightarrow> client" where
  "client_run c [] = c"
| "client_run c (x # xs) = client_run (client_step c x) xs"

text \<open>Requests sent one after the other, with the promise of each.\<close>

fun send_all :: "client \<Rightarrow> message list \<Rightarrow> client \<times> nat list" where
  "send_all c [] = (c, [])"
| "send_all c (m # ms) =
     (let (c1, p) = client_sendMessage c m; (c2, ps) = send_all c1 ms in (c2, p # ps))"

text \<open>Messages dispatched one after the other, up to the first that raises.\<close>

fun deliver_all :: "client \<Rightarrow> message list \<Rightarrow> error + client" where
  "deliver_all c [] = Inr c"
| "deliver_all c (r # rs) =
     (case client_onMessage c r of Inl e \<Rightarrow> Inl e | Inr (c1, calls) \<Rightarrow> deliver_all c1 rs)"

section \<open>Notions used in the statements\<close>

text \<open>
  A create request is a message with a truthy \<^verbatim>\<open>create\<close>; a lookup request is one with
  no truthy \<^verbatim>\<open>create\<close> and a truthy \<^verbatim>\<open>lookup\<close>. \<open>origin\<close> is the kind and the name
  of such a request. A request mints an identifier unless it is a create request for a
  name that is not in the factory catalog.
\<close>

definition origin :: "message \<Rightarrow> (string \<times> string) option" where
  "origin m =
     (if name_truthy (create m) then Some (''create'', the (create m))
      else if name_truthy (lookup m) then Some (''lookup'', the (lookup m))
      else None)"

definition mints :: "server \<Rightarrow> message \<Rightarrow> bool" where
  "mints s m =
     (case origin m of
        None \<Rightarrow> False
      | Some (kind, name) \<Rightarrow> kind = ''lookup'' \<or> factories s name \<noteq> None)"

text \<open>The identifier \<^verbatim>\<open><origin-kind>#<name>#<sequence>#\<close> of a request and a sequence number.\<close>

definition expected_id :: "message \<Rightarrow> nat \<Rightarrow> string" where
  "expected_id m n =
     (case origin m of
        None \<Rightarrow> []
      | Some (kind, name) \<Rightarrow> kind @ ''#'' @ name @ ''#'' @ show_nat n @ ''#'')"

text \<open>The identifiers minted while a list of messages is handled, in order.\<close>

definition minted_ids :: "server \<Rightarrow> message list \<Rightarrow> string list" where
  "minted_ids s ms =
     concat (map (\<lambda>r. case minted r of None \<Rightarrow> [] | Some oid \<Rightarrow> [oid]) (serve s ms))"

text \<open>
  The sequence number embedded in an identifier: the number written between its last two
  \<^verbatim>\<open>#\<close>.
\<close>

definition seq_of :: "string \<Rightarrow> nat" where
  "seq_of oid = parse_nat (rev (takeWhile (\<lambda>c. c \<noteq> CHR ''#'') (tl (rev oid))))"

text \<open>
  A name of a prototype is wanted in the descriptor set when it is not \<^verbatim>\<open>constructor\<close>
  and reading it yields a callable value. \<open>callable_names\<close> follows the words of the
  specification: those names in the order in which the properties were created.
\<close>

definition callable_at :: "proto \<Rightarrow> string \<Rightarrow> bool" where
  "callable_at p name =
     (name \<noteq> ''constructor'' \<and> (case get_prop p name of Inl e \<Rightarrow> False | Inr v \<Rightarrow> is_function v))"

definition callable_names :: "proto \<Rightarrow> string list" where
  "callable_names p = filter (callable_at p) (string_keys p)"

text \<open>No getter that \<^verbatim>\<open>describe_\<close> runs raises.\<close>

definition getters_return :: "proto \<Rightarrow> bool" where
  "getters_return p =
     list_all (\<lambda>name. name = ''constructor'' \<or> (case get_prop p name of Inl e \<Rightarrow> False | Inr v \<Rightarrow> True))
       (string_keys p)"

text \<open>\<^verbatim>\<open>message.result\<close> as read by the Client: \<^verbatim>\<open>undefined\<close> when the field is absent.\<close>

definition result_of :: "message \<Rightarrow> jsval" where
  "result_of m = (case result m of None \<Rightarrow> JUndefined | Some v \<Rightarrow> v)"

text \<open>
  A message rebinds the \<^verbatim>\<open>emit\<close> of the object at address \<open>a\<close> when it is a lookup
  request for a name under which that object is registered as a service.
\<close>

definition rebinds :: "server \<Rightarrow> nat \<Rightarrow> message \<Rightarrow> bool" where
  "rebinds s a m =
     (case origin m of
        None \<Rightarrow> False
      | Some (kind, name) \<Rightarrow> kind = ''lookup'' \<and> services s name = Some a)"

text \<open>
  An event, among the messages the Server sends: a message that the Client hands to the
  listeners of a proxy, that is one with no \<^verbatim>\<open>id\<close> and with \<^verbatim>\<open>args\<close>. (A reply has no
  \<^verbatim>\<open>args\<close>.)
\<close>

definition is_event :: "message \<Rightarrow> bool" where
  "is_event e = (id e = None \<and> args e \<noteq> None)"

text \<open>The steps of the Client that go through \<^verbatim>\<open>sendMessage_\<close>.\<close>

fun sends :: "client_op \<Rightarrow> bool" where
  "sends (Create service) = True"
| "sends (Lookup name) = True"
| "sends (Call oid m as) = True"
| "sends (Dispose oid) = True"
| "sends _ = False"

section \<open>Examples\<close>

text \<open>
  The counter of the specification's scenario: \<^verbatim>\<open>increment()\<close> adds one, emits
  \<^verbatim>\<open>changed\<close> with the new value and returns it. \<open>Failing\<close> has one method, which throws.
\<close>

definition counter_proto :: proto where
  "counter_proto = [(KStr ''constructor'', Data (JFun 0)), (KStr ''increment'', Data (JFun 1))]"

definition increment :: hmethod where
  "increment st as =
     (case st of
        JNum n \<Rightarrow> \<lparr>emitted = [(''changed'', [JNum (n + 1)])],
                   returned = Inr (JNum (n + 1)), new_state = JNum (n + 1)\<rparr>
      | _ \<Rightarrow> \<lparr>emitted = [], returned = Inl TypeError, new_state = st\<rparr>)"

definition Counter :: hclass where
  "Counter =
     \<lparr>cname = ''Counter'',
      constructs = \<lparr>hproto = Some counter_proto, hemit = None,
                     hmeths = [''increment'' \<mapsto> increment], hstate = JNum 0\<rparr>\<rparr>"

definition fail :: hmethod where
  "fail st as = \<lparr>emitted = [], returned = Inl (Thrown (JStr ''boom'')), new_state = st\<rparr>"

definition Failing :: hclass where
  "Failing =
     \<lparr>cname = ''Failing'',
      constructs = \<lparr>hproto = Some [(KStr ''constructor'', Data (JFun 2)), (KStr ''fail'', Data (JFun 3))],
                     hemit = None, hmeths = [''fail'' \<mapsto> fail], hstate = JUndefined\<rparr>\<rparr>"

text \<open>Messages of the page: two requests to create, stub calls and a dispose.\<close>

definition create_Counter :: message where
  "create_Counter = no_fields\<lparr>create := Some ''Counter'', id := Some 1\<rparr>"

definition create_Failing :: message where
  "create_Failing = no_fields\<lparr>create := Some ''Failing'', id := Some 1\<rparr>"

definition dispose_Counter :: message where
  "dispose_Counter =
     no_fields\<lparr>dispose := Some (JStr ''dispose''), objectId := Some ''create#Counter#1#'', id := Some 2\<rparr>"

definition call_increment :: message where
  "call_increment =
     no_fields\<lparr>method_name := Some ''increment'', objectId := Some ''create#Counter#1#'',
                args := Some [], id := Some 3\<rparr>"

definition call_fail :: message where
  "call_fail =
     no_fields\<lparr>method_name := Some ''fail'', objectId := Some ''create#Failing#1#'',
                args := Some [], id := Some 2\<rparr>"

text \<open>
  A run of requests: a create, a lookup of a service that is not registered, a dispose of
  the first object, a create for a factory that is not registered, and another create.
\<close>

definition requests :: "message list" where
  "requests =
     [no_fields\<lparr>create := Some ''Counter'', id := Some 1\<rparr>,
      no_fields\<lparr>lookup := Some ''settings'', id := Some 2\<rparr>,
      no_fields\<lparr>dispose := Some (JStr ''dispose''), objectId := Some ''create#Counter#1#'', id := Some 3\<rparr>,
      no_fields\<lparr>create := Some ''Missing'', id := Some 4\<rparr>,
      no_fields\<lparr>create := Some ''Counter'', id := Some 5\<rparr>]"

text \<open>A response of the Server to request \<open>n\<close>.\<close>

definition response :: "nat \<Rightarrow> jsval \<Rightarrow> message" where
  "response n v = no_fields\<lparr>id := Some n, result := Some v\<rparr>"

text \<open>
  A Server with one service, \<^verbatim>\<open>settings\<close>, the object at address 0; requests to look it
  up; a stub call on the proxy of the first lookup; and a Client that holds a proxy for
  each of two lookups, with handler 1 on the first and handler 2 on the second.
  \<open>after_second_lookup\<close> is the Server once it has handled a lookup, the stub call and a
  second lookup.
\<close>

definition settings_server :: server where
  "settings_server = exposeObject (fst (alloc Server (constructs Counter))) ''settings'' 0"

definition lookup_settings :: "nat \<Rightarrow> message" where
  "lookup_settings n = no_fields\<lparr>lookup := Some ''settings'', id := Some n\<rparr>"

definition call_settings :: message where
  "call_settings =
     no_fields\<lparr>method_name := Some ''increment'', objectId := Some ''lookup#settings#1#'',
                args := Some [], id := Some 2\<rparr>"

definition after_second_lookup :: server where
  "after_second_lookup =
     state (onMessage (serve_state (state (onMessage settings_server (lookup_settings 1)))
                         [call_settings])
              (lookup_settings 3))"

definition two_proxies :: client where
  "two_proxies =
     proxy_on (proxy_on (wrap (wrap Client ''lookup#settings#1#'' [''increment''])
                              ''lookup#settings#2#'' [''increment''])
                        ''lookup#settings#1#'' ''changed'' 1)
              ''lookup#settings#2#'' ''changed'' 2"

text \<open>A prototype whose second method is named by an array index.\<close>

definition indexed_proto :: proto where
  "indexed_proto =
     [(KStr ''constructor'', Data (JFun 4)), (KStr ''b'', Data (JFun 5)), (KStr ''1'', Data (JFun 6))]"

section \<open>Evaluation\<close>

lemmas server_eval =
  onMessage_def register_def alloc_def mint_def show_nat.simps describe_def for_in_keys_def
  is_array_index_def parse_nat_def digit_val_def is_digit_def digit_char_def invoke_def
  rejected_def objects_get_def emit_closure_def emit_remote_def event_message_def no_fields_def
  exposeFactory_def exposeObject_def Server_def new_object_def Let_def

section \<open>Object identifiers\<close>

subsection \<open>Decimal numerals\<close>

lemma digit_cases: "d < 10 \<Longrightarrow> d \<in> {0, 1, 2, 3, 4, 5, 6, 7, 8, 9::nat}"
  by auto

lemma digit_val_digit_char: "d < 10 \<Longrightarrow> digit_val (digit_char d) = d"
  by (drule digit_cases) (auto simp: digit_val_def digit_char_def)

lemma digit_char_not_hash: "d < 10 \<Longrightarrow> digit_char d \<noteq> CHR ''#''"
  by (drule digit_cases) (auto simp: digit_char_def)

lemma show_nat_no_hash: "CHR ''#'' \<notin> set (show_nat n)"
proof (induction n rule: show_nat.induct)
  case (1 n)
  show ?case
  proof (cases "n < 10")
    case True
    then show ?thesis using digit_char_not_hash [of n] by (auto simp: show_nat.simps [of n])
  next
    case False
    have "n mod 10 < 10" by simp
    then have "digit_char (n mod 10) \<noteq> CHR ''#''" by (rule digit_char_not_hash)
    with False 1 show ?thesis by (auto simp: show_nat.simps [of n])
  qed
qed

lemma parse_nat_snoc: "parse_nat (s @ [c]) = 10 * parse_nat s + digit_val c"
  by (simp add: parse_nat_def)

lemma parse_show_nat: "parse_nat (show_nat n) = n"
proof (induction n rule: show_nat.induct)
  case (1 n)
  show ?case
  proof (cases "n < 10")
    case True
    then show ?thesis by (simp add: show_nat.simps [of n] parse_nat_def digit_val_digit_char)
  next
    case False
    with 1 have "parse_nat (show_nat (n div 10)) = n div 10" by simp
    with False show ?thesis
      by (simp add: show_nat.simps [of n] parse_nat_snoc digit_val_digit_char)
  qed
qed

lemma seq_of_mint: "seq_of (mint kind name n) = n"
proof -
  have "tl (rev (mint kind name n)) = rev (show_nat n) @ CHR ''#'' # rev name @ CHR ''#'' # rev kind"
    by (simp add: mint_def)
  moreover have "takeWhile (\<lambda>c. c \<noteq> CHR ''#'') (rev (show_nat n) @ CHR ''#'' # rev name @ CHR ''#'' # rev kind)
      = rev (show_nat n)"
    using show_nat_no_hash [of n] by (subst takeWhile_append2) auto
  ultimately show ?thesis by (simp add: seq_of_def parse_show_nat)
qed

lemma register_frame:
  "minted (register s m oid obj) = Some oid"
  "lastObjectId (state (register s m oid obj)) = lastObjectId s"
  "factories (state (register s m oid obj)) = factories s"
  "services (state (register s m oid obj)) = services s"
  by (simp_all add: register_def rejected_def Let_def split: option.splits sum.splits)

lemma invoke_frame:
  "minted (invoke s m) = None"
  "lastObjectId (state (invoke s m)) = lastObjectId s"
  "factories (state (invoke s m)) = factories s"
  "services (state (invoke s m)) = services s"
  by (simp_all add: invoke_def rejected_def Let_def split: option.splits sum.splits)

lemma onMessage_cases:
  "onMessage s m =
     (case origin m of
        Some (kind, name) \<Rightarrow>
          if kind = ''create'' then
            (case factories s name of
               None \<Rightarrow> rejected s [] TypeError None
             | Some c \<Rightarrow>
                 register (fst (alloc s (constructs c))\<lparr>lastObjectId := lastObjectId s + 1\<rparr>) m
                   (mint ''create'' name (lastObjectId s + 1)) (Some (nextAddr s)))
          else register (s\<lparr>lastObjectId := lastObjectId s + 1\<rparr>) m
                 (mint ''lookup'' name (lastObjectId s + 1)) (services s name)
      | None \<Rightarrow>
          if field_truthy (dispose m) then
            \<lparr>state = (case objectId m of None \<Rightarrow> s | Some oid \<Rightarrow> s\<lparr>objects := (objects s)(oid := None)\<rparr>),
             sent = [], thrown = None, minted = None\<rparr>
          else invoke s m)"
  by (simp add: onMessage_def origin_def alloc_def Let_def split: option.splits)

lemma origin_kinds: "origin m = Some (kind, name) \<Longrightarrow> kind = ''create'' \<or> kind = ''lookup''"
  by (auto simp: origin_def split: if_splits)

lemma onMessage_factories: "factories (state (onMessage s m)) = factories s"
  by (simp add: onMessage_cases register_frame invoke_frame rejected_def alloc_def split: option.splits)

lemma onMessage_minted:
  "minted (onMessage s m) = (if mints s m then Some (expected_id m (lastObjectId s + 1)) else None)"
  by (auto simp: onMessage_cases register_frame invoke_frame rejected_def mints_def expected_id_def mint_def
           split: option.splits dest: origin_kinds)

lemma onMessage_lastObjectId:
  "lastObjectId (state (onMessage s m)) = (if mints s m then lastObjectId s + 1 else lastObjectId s)"
  by (auto simp: onMessage_cases register_frame invoke_frame rejected_def mints_def alloc_def
           split: option.splits dest: origin_kinds)


lemma mints_state: "mints (state (onMessage s m)) = mints s"
  by (rule ext) (simp add: mints_def onMessage_factories cong: option.case_cong)

lemma minted_ids_Cons:
  "minted_ids s (m # ms) =
     (if mints s m then [expected_id m (lastObjectId s + 1)] else []) @ minted_ids (state (onMessage s m)) ms"
  by (simp add: minted_ids_def onMessage_minted)

lemma minted_ids_eq:
  "minted_ids s ms =
     map2 expected_id (filter (mints s) ms)
       [lastObjectId s + 1 ..< lastObjectId s + 1 + length (filter (mints s) ms)]"
proof (induction ms arbitrary: s)
  case Nil
  show ?case by (simp add: minted_ids_def)
next
  case (Cons m ms)
  let ?s = "state (onMessage s m)"
  have f: "filter (mints ?s) ms = filter (mints s) ms"
    by (simp add: mints_state)
  show ?case
  proof (cases "mints s m")
    case True
    then have "lastObjectId ?s = lastObjectId s + 1" by (simp add: onMessage_lastObjectId)
    then show ?thesis using True Cons [of ?s] f
      by (simp add: minted_ids_Cons upt_conv_Cons del: upt_Suc)
  next
    case False
    then have "lastObjectId ?s = lastObjectId s" by (simp add: onMessage_lastObjectId)
    then show ?thesis using False Cons [of ?s] f by (simp add: minted_ids_Cons)
  qed
qed

lemma seq_of_expected: "origin m \<noteq> None \<Longrightarrow> seq_of (expected_id m n) = n"
  using seq_of_mint by (auto simp: expected_id_def mint_def)

lemma mints_origin: "mints s m \<Longrightarrow> origin m \<noteq> None"
  by (auto simp: mints_def split: option.splits)

lemma map_seq_of_expected:
  "length ms = length ns \<Longrightarrow> \<forall>m \<in> set ms. origin m \<noteq> None \<Longrightarrow> map seq_of (map2 expected_id ms ns) = ns"
proof (induction ms ns rule: list_induct2)
  case Nil
  show ?case by simp
next
  case (Cons m ms n ns)
  then show ?case by (simp add: seq_of_expected)
qed

text \<open>
  C1. Whatever messages one Server handles, from whatever state: the identifiers it mints
  are, in order, \<^verbatim>\<open>create#<name>#<n>#\<close> for the create requests and
  \<^verbatim>\<open>lookup#<name>#<n>#\<close> for the lookup requests that mint, with \<open>n\<close> running through
  the numbers after \<^verbatim>\<open>lastObjectId_\<close> without a gap, one counter for both kinds; the
  embedded numbers are strictly increasing, and no identifier is minted twice, whatever
  is disposed in between.
\<close>

theorem minted_ids_unique_increasing:
  "minted_ids s ms =
     map2 expected_id (filter (mints s) ms)
       [lastObjectId s + 1 ..< lastObjectId s + 1 + length (filter (mints s) ms)] \<and>
   map seq_of (minted_ids s ms) = [lastObjectId s + 1 ..< lastObjectId s + 1 + length (minted_ids s ms)] \<and>
   sorted_wrt (<) (map seq_of (minted_ids s ms)) \<and>
   distinct (minted_ids s ms)"
proof -
  define qs where "qs = filter (mints s) ms"
  define ns where "ns = [lastObjectId s + 1 ..< lastObjectId s + 1 + length qs]"
  have eq: "minted_ids s ms = map2 expected_id qs ns"
    unfolding qs_def ns_def by (rule minted_ids_eq)
  have lens: "length qs = length ns"
    unfolding ns_def by (metis add_diff_cancel_left' length_upt)
  then have len: "length (minted_ids s ms) = length qs"
    unfolding eq by (simp only: length_map length_zip min.idem)
  have "\<forall>m \<in> set qs. origin m \<noteq> None"
    unfolding qs_def using mints_origin by auto
  with lens have seqs: "map seq_of (minted_ids s ms) = ns"
    unfolding eq by (rule map_seq_of_expected)
  have "distinct ns" and incr: "sorted_wrt (<) ns"
    unfolding ns_def by (rule distinct_upt, rule sorted_wrt_upt)
  then have "distinct (map seq_of (minted_ids s ms))"
    by (simp only: seqs)
  then have d: "distinct (minted_ids s ms)" by (simp add: distinct_map)
  have ns_len: "ns = [lastObjectId s + 1 ..< lastObjectId s + 1 + length (minted_ids s ms)]"
    by (simp only: ns_def len)
  show ?thesis
  proof (intro conjI)
    show "minted_ids s ms =
        map2 expected_id (filter (mints s) ms)
          [lastObjectId s + 1 ..< lastObjectId s + 1 + length (filter (mints s) ms)]"
      by (rule minted_ids_eq)
    show "map seq_of (minted_ids s ms) =
        [lastObjectId s + 1 ..< lastObjectId s + 1 + length (minted_ids s ms)]"
      using seqs ns_len by (rule trans)
    show "sorted_wrt (<) (map seq_of (minted_ids s ms))"
      using incr by (simp only: seqs)
    show "distinct (minted_ids s ms)" by (rule d)
  qed
qed

text \<open>
  An instance, on \<open>requests\<close>: the lookup of the unknown service mints and stores its
  identifier before the write to \<^verbatim>\<open>emit\<close> raises; the create for the unknown factory
  mints nothing.
\<close>

theorem minted_ids_unique_increasing_witness:
  "minted_ids (exposeFactory Server Counter) requests
     = [''create#Counter#1#'', ''lookup#settings#2#'', ''create#Counter#3#''] \<and>
   map seq_of (minted_ids (exposeFactory Server Counter) requests) = [1, 2, 3] \<and>
   distinct (minted_ids (exposeFactory Server Counter) requests)"
proof -
  have ids: "minted_ids (exposeFactory Server Counter) requests
     = [''create#Counter#1#'', ''lookup#settings#2#'', ''create#Counter#3#'']"
    by (simp add: minted_ids_def requests_def Counter_def counter_proto_def server_eval)
  note th = minted_ids_unique_increasing [of "exposeFactory Server Counter" requests]
  have zero: "lastObjectId (exposeFactory Server Counter) = 0"
    by (simp add: exposeFactory_def Server_def)
  from th have "map seq_of (minted_ids (exposeFactory Server Counter) requests) =
      [lastObjectId (exposeFactory Server Counter) + 1 ..<
       lastObjectId (exposeFactory Server Counter) + 1
         + length (minted_ids (exposeFactory Server Counter) requests)]"
    by (elim conjE)
  then have seqs: "map seq_of (minted_ids (exposeFactory Server Counter) requests) = [1, 2, 3]"
    by (simp add: zero ids upt_rec)
  from th have "distinct (minted_ids (exposeFactory Server Counter) requests)"
    by (elim conjE)
  with ids seqs show ?thesis by (simp only: simp_thms)
qed

section \<open>The method descriptor set\<close>

lemma describe_loop_returns:
  "describe_loop p names acc = Inr ms \<Longrightarrow> ms = acc @ filter (callable_at p) names"
proof (induction names arbitrary: acc)
  case Nil
  then show ?case by simp
next
  case (Cons name names)
  show ?case
  proof (cases "name = ''constructor''")
    case True
    with Cons show ?thesis by (simp add: callable_at_def)
  next
    case False
    show ?thesis
    proof (cases "get_prop p name")
      case (Inl e)
      with False Cons.prems show ?thesis by simp
    next
      case (Inr v)
      with False Cons.prems Cons.IH [of "if is_function v then acc @ [name] else acc"]
      show ?thesis by (simp add: callable_at_def split: if_splits)
    qed
  qed
qed

lemma describe_loop_total:
  assumes "\<forall>name \<in> set names. name = ''constructor'' \<or> (case get_prop p name of Inl e \<Rightarrow> False | Inr v \<Rightarrow> True)"
  shows "\<exists>ms. describe_loop p names acc = Inr ms"
  using assms
proof (induction names arbitrary: acc)
  case Nil
  then show ?case by simp
next
  case (Cons name names)
  then show ?case by (auto split: sum.splits)
qed

lemma set_for_in_keys: "set (for_in_keys p) = set (string_keys p)"
  by (auto simp: for_in_keys_def)

lemma for_in_keys_no_index:
  "\<not> list_ex is_array_index (string_keys p) \<Longrightarrow> for_in_keys p = string_keys p"
  by (simp add: for_in_keys_def list_ex_iff filter_empty_conv)

lemma describe_returns:
  assumes "hproto obj = Some p" and "getters_return p"
  shows "describe obj = Inr (filter (callable_at p) (for_in_keys p))"
proof -
  have "\<forall>name \<in> set (for_in_keys p). name = ''constructor'' \<or> (case get_prop p name of Inl e \<Rightarrow> False | Inr v \<Rightarrow> True)"
    using assms(2) by (simp add: getters_return_def list_all_iff set_for_in_keys)
  then obtain ms where ms: "describe_loop p (for_in_keys p) [] = Inr ms"
    using describe_loop_total by blast
  then have "ms = filter (callable_at p) (for_in_keys p)"
    using describe_loop_returns by fastforce
  with ms show ?thesis using assms(1) by (simp add: describe_def)
qed

text \<open>
  C2, amended. For an object whose immediate prototype has the own properties \<open>p\<close>: the
  list that \<^verbatim>\<open>describe_\<close> returns, if it returns one, is made of the string names of
  \<open>p\<close> other than \<^verbatim>\<open>constructor\<close> whose value is callable, in the order in which
  \<^verbatim>\<open>for ... in\<close> walks the keys: the array indices first, by value, then the other names
  in the order of creation. It returns that list whenever no getter of the prototype
  raises, and the reply to the create or lookup carries it as \<^verbatim>\<open>methods\<close>. For a prototype
  with no name that is an array index, the order is the order of creation.
\<close>

theorem describe_in_key_order:
  assumes "hproto (heap s a) = Some p"
  shows "(\<forall>ms. describe (heap s a) = Inr ms \<longrightarrow> ms = filter (callable_at p) (for_in_keys p)) \<and>
         (getters_return p \<longrightarrow>
            describe (heap s a) = Inr (filter (callable_at p) (for_in_keys p)) \<and>
            sent (register s message oid (Some a)) =
              [no_fields\<lparr>id := id message,
                 result := Some (JObj [(''methods'', JArr (map JStr (filter (callable_at p) (for_in_keys p)))),
                                       (''objectId'', JStr oid)])\<rparr>]) \<and>
         (\<not> list_ex is_array_index (string_keys p) \<longrightarrow>
            filter (callable_at p) (for_in_keys p) = callable_names p)"
proof (intro conjI allI impI)
  fix ms
  assume "describe (heap s a) = Inr ms"
  with assms have "describe_loop p (for_in_keys p) [] = Inr ms" by (simp add: describe_def)
  then show "ms = filter (callable_at p) (for_in_keys p)"
    using describe_loop_returns by fastforce
next
  assume g: "getters_return p"
  with assms show "describe (heap s a) = Inr (filter (callable_at p) (for_in_keys p))"
    by (rule describe_returns)
  have "hproto ((heap s a)\<lparr>hemit := Some oid\<rparr>) = Some p" using assms by simp
  then have "describe ((heap s a)\<lparr>hemit := Some oid\<rparr>) = Inr (filter (callable_at p) (for_in_keys p))"
    using g by (rule describe_returns)
  then show "sent (register s message oid (Some a)) =
      [no_fields\<lparr>id := id message,
         result := Some (JObj [(''methods'', JArr (map JStr (filter (callable_at p) (for_in_keys p)))),
                               (''objectId'', JStr oid)])\<rparr>]"
    by (simp add: register_def Let_def)
next
  assume "\<not> list_ex is_array_index (string_keys p)"
  then show "filter (callable_at p) (for_in_keys p) = callable_names p"
    by (simp add: for_in_keys_no_index callable_names_def)
qed

text \<open>An instance: the counter, as the first object of the host's memory.\<close>

theorem describe_in_key_order_witness:
  "hproto (heap (fst (alloc Server (constructs Counter))) 0) = Some counter_proto \<and>
   getters_return counter_proto \<and>
   \<not> list_ex is_array_index (string_keys counter_proto) \<and>
   describe (heap (fst (alloc Server (constructs Counter))) 0) = Inr [''increment''] \<and>
   callable_names counter_proto = [''increment''] \<and>
   sent (register (fst (alloc Server (constructs Counter))) create_Counter ''create#Counter#1#'' (Some 0)) =
     [no_fields\<lparr>id := Some 1,
        result := Some (JObj [(''methods'', JArr [JStr ''increment'']),
                              (''objectId'', JStr ''create#Counter#1#'')])\<rparr>]"
proof -
  have h: "hproto (heap (fst (alloc Server (constructs Counter))) 0) = Some counter_proto"
    by (simp add: alloc_def Server_def Counter_def)
  have g: "getters_return counter_proto"
    by (simp add: getters_return_def counter_proto_def)
  have n: "\<not> list_ex is_array_index (string_keys counter_proto)"
    by (simp add: counter_proto_def is_array_index_def is_digit_def)
  have k: "for_in_keys counter_proto = [''constructor'', ''increment'']"
    by (simp add: for_in_keys_def counter_proto_def is_array_index_def is_digit_def)
  have f: "filter (callable_at counter_proto) (for_in_keys counter_proto) = [''increment'']"
    unfolding k by (simp add: callable_at_def counter_proto_def)
  have i: "id create_Counter = Some 1"
    by (simp add: create_Counter_def no_fields_def)
  show ?thesis
    using describe_in_key_order [OF h, of create_Counter "''create#Counter#1#''"] h g n
    unfolding f i by simp
qed

text \<open>
  The claim as written fails on a class whose methods \<^verbatim>\<open>b\<close> and \<^verbatim>\<open>1\<close> were declared in
  this order: the descriptor set has \<^verbatim>\<open>1\<close> first.
\<close>

theorem describe_index_keys_first:
  "describe \<lparr>hproto = Some indexed_proto, hemit = None, hmeths = Map.empty, hstate = JUndefined\<rparr>
     = Inr [''1'', ''b''] \<and>
   callable_names indexed_proto = [''b'', ''1'']"
  by (simp add: describe_def for_in_keys_def is_array_index_def parse_nat_def digit_val_def
        is_digit_def callable_at_def callable_names_def indexed_proto_def)

section \<open>Listeners\<close>

text \<open>
  C4. The claim: after \<^verbatim>\<open>off(event, handler)\<close> the handler is no longer called when the
  event is emitted. The code does not do this: \<^verbatim>\<open>off\<close> leaves the emitter as it was, and
  a handler registered with \<^verbatim>\<open>on\<close> and removed with \<^verbatim>\<open>off\<close> is still called by
  \<^verbatim>\<open>emit_\<close>.
\<close>

theorem off_keeps_handler:
  "off e event handler = e \<and>
   (handler, as) \<in> set (emit (off (on e event handler) event handler) event as)"
  by (auto simp: off_def on_def emit_def Let_def split: option.splits)

text \<open>On a fresh proxy, with handler number 7 registered for \<^verbatim>\<open>changed\<close> and removed.\<close>

theorem off_keeps_handler_example:
  "emit (off (on (EventEmitter ''create#Counter#1#'') ''changed'' 7) ''changed'' 7) ''changed'' [JNum 1]
     = [(7, [JNum 1])]"
  by (simp add: emit_def off_def on_def EventEmitter_def)

section \<open>Disposal\<close>

text \<open>
  C7. A dispose message (no truthy \<^verbatim>\<open>create\<close> or \<^verbatim>\<open>lookup\<close>, a truthy \<^verbatim>\<open>dispose\<close>)
  removes the registry entry of its \<^verbatim>\<open>objectId\<close> and changes nothing else; nothing is sent
  and nothing is raised. Handling it a second time gives the same outcome on the same
  state, and when the \<^verbatim>\<open>objectId\<close> is not in the registry the state is left as it was.
\<close>

theorem dispose_idempotent:
  assumes "\<not> name_truthy (create m)" and "\<not> name_truthy (lookup m)" and "field_truthy (dispose m)"
  shows "sent (onMessage s m) = [] \<and> thrown (onMessage s m) = None \<and>
         state (onMessage s m) =
           (case objectId m of None \<Rightarrow> s | Some oid \<Rightarrow> s\<lparr>objects := (objects s)(oid := None)\<rparr>) \<and>
         onMessage (state (onMessage s m)) m = onMessage s m \<and>
         ((\<forall>oid. objectId m = Some oid \<longrightarrow> objects s oid = None) \<longrightarrow> state (onMessage s m) = s)"
proof -
  have r: "onMessage s m =
      \<lparr>state = (case objectId m of None \<Rightarrow> s | Some oid \<Rightarrow> s\<lparr>objects := (objects s)(oid := None)\<rparr>),
       sent = [], thrown = None, minted = None\<rparr>" for s
    using assms by (simp add: onMessage_def)
  have again: "onMessage (state (onMessage s m)) m = onMessage s m"
    by (simp add: r split: option.splits)
  have unknown: "state (onMessage s m) = s" if "\<forall>oid. objectId m = Some oid \<longrightarrow> objects s oid = None"
  proof (cases "objectId m")
    case None
    then show ?thesis by (simp add: r)
  next
    case (Some oid)
    with that have "(objects s)(oid := None) = objects s" by auto
    with Some show ?thesis by (simp add: r)
  qed
  show ?thesis using again unknown by (simp add: r)
qed

text \<open>
  An instance: the dispose of the counter, on a Server that has it registered and on one
  that has not.
\<close>

theorem dispose_idempotent_witness:
  "\<not> name_truthy (create dispose_Counter) \<and> \<not> name_truthy (lookup dispose_Counter) \<and>
   field_truthy (dispose dispose_Counter) \<and>
   objects (Server\<lparr>objects := [''create#Counter#1#'' \<mapsto> Some 0]\<rparr>) ''create#Counter#1#'' = Some (Some 0) \<and>
   sent (onMessage (Server\<lparr>objects := [''create#Counter#1#'' \<mapsto> Some 0]\<rparr>) dispose_Counter) = [] \<and>
   thrown (onMessage (Server\<lparr>objects := [''create#Counter#1#'' \<mapsto> Some 0]\<rparr>) dispose_Counter) = None \<and>
   objects (state (onMessage (Server\<lparr>objects := [''create#Counter#1#'' \<mapsto> Some 0]\<rparr>) dispose_Counter))
      ''create#Counter#1#'' = None \<and>
   state (onMessage Server dispose_Counter) = Server"
proof -
  have h: "\<not> name_truthy (create dispose_Counter)" "\<not> name_truthy (lookup dispose_Counter)"
      "field_truthy (dispose dispose_Counter)"
    by (simp_all add: dispose_Counter_def no_fields_def)
  have o: "objectId dispose_Counter = Some ''create#Counter#1#''"
    by (simp add: dispose_Counter_def no_fields_def)
  have e: "\<forall>oid. objectId dispose_Counter = Some oid \<longrightarrow> objects Server oid = None"
    by (simp add: Server_def)
  note known = dispose_idempotent [OF h, of "Server\<lparr>objects := [''create#Counter#1#'' \<mapsto> Some 0]\<rparr>"]
  note unknown = dispose_idempotent [OF h, of Server]
  from known have
      "sent (onMessage (Server\<lparr>objects := [''create#Counter#1#'' \<mapsto> Some 0]\<rparr>) dispose_Counter) = []"
      "thrown (onMessage (Server\<lparr>objects := [''create#Counter#1#'' \<mapsto> Some 0]\<rparr>) dispose_Counter) = None"
      "objects (state (onMessage (Server\<lparr>objects := [''create#Counter#1#'' \<mapsto> Some 0]\<rparr>) dispose_Counter))
         ''create#Counter#1#'' = None"
    by (simp_all add: o)
  moreover from unknown e have "state (onMessage Server dispose_Counter) = Server"
    by blast
  moreover have "objects (Server\<lparr>objects := [''create#Counter#1#'' \<mapsto> Some 0]\<rparr>) ''create#Counter#1#''
      = Some (Some 0)"
    by simp
  ultimately show ?thesis using h by blast
qed

section \<open>Events for a proxy the Client does not hold\<close>

text \<open>
  C10. A message with no \<^verbatim>\<open>id\<close> is an event. When the Client's registry has no proxy
  for its \<^verbatim>\<open>objectId\<close>, \<^verbatim>\<open>dispatchMessage\<close> raises a \<^verbatim>\<open>TypeError\<close>; so it does for
  every event that names a proxy after that proxy's \<^verbatim>\<open>dispose\<close>.
\<close>

theorem event_without_proxy_throws:
  assumes "id m = None"
  shows "((\<forall>oid. objectId m = Some oid \<longrightarrow> client_objects c oid = None)
            \<longrightarrow> client_onMessage c m = Inl TypeError) \<and>
         (\<forall>oid. objectId m = Some oid \<longrightarrow> client_onMessage (proxy_dispose c oid) m = Inl TypeError)"
  using assms
  by (auto simp: client_onMessage_def proxy_dispose_def client_sendMessage_def Let_def
           split: option.splits)

text \<open>
  An instance: the event \<^verbatim>\<open>changed\<close> of the counter, on a Client that never had the proxy
  and on one that wrapped and then disposed it.
\<close>

theorem event_without_proxy_throws_witness:
  "id (event_message ''create#Counter#1#'' ''changed'' [JNum 1]) = None \<and>
   client_onMessage Client (event_message ''create#Counter#1#'' ''changed'' [JNum 1]) = Inl TypeError \<and>
   client_onMessage (proxy_dispose (wrap Client ''create#Counter#1#'' [''increment'']) ''create#Counter#1#'')
       (event_message ''create#Counter#1#'' ''changed'' [JNum 1]) = Inl TypeError"
proof -
  have h: "id (event_message ''create#Counter#1#'' ''changed'' [JNum 1]) = None"
    by (simp add: event_message_def no_fields_def)
  have o: "objectId (event_message ''create#Counter#1#'' ''changed'' [JNum 1]) = Some ''create#Counter#1#''"
    by (simp add: event_message_def no_fields_def)
  show ?thesis
    using event_without_proxy_throws [OF h, of Client]
          event_without_proxy_throws [OF h, of "wrap Client ''create#Counter#1#'' [''increment'']"] h
    by (simp add: o Client_def)
qed

section \<open>Invocations that fail\<close>

text \<open>
  C5, amended. An invoke message (no truthy \<^verbatim>\<open>create\<close>, \<^verbatim>\<open>lookup\<close> or \<^verbatim>\<open>dispose\<close>)
  whose \<^verbatim>\<open>objectId\<close> the registry does not hold, or holds with \<^verbatim>\<open>undefined\<close>, makes
  \<^verbatim>\<open>onMessage_\<close> raise a \<^verbatim>\<open>TypeError\<close>: the promise it returns is rejected, no message
  is sent, and the Server is left as it was. This is so for an \<^verbatim>\<open>objectId\<close> that a dispose
  message has just removed.
\<close>

theorem unknown_object_rejects:
  assumes "\<not> name_truthy (create m)" and "\<not> name_truthy (lookup m)" and "\<not> field_truthy (dispose m)"
  shows "(objects_get s (objectId m) = None \<longrightarrow>
           onMessage s m = \<lparr>state = s, sent = [], thrown = Some TypeError, minted = None\<rparr>) \<and>
         (\<forall>d. \<not> name_truthy (create d) \<and> \<not> name_truthy (lookup d) \<and> field_truthy (dispose d)
               \<and> objectId d = objectId m \<longrightarrow>
            onMessage (state (onMessage s d)) m =
              \<lparr>state = state (onMessage s d), sent = [], thrown = Some TypeError, minted = None\<rparr>)"
  using assms
  by (auto simp: onMessage_def invoke_def rejected_def objects_get_def split: option.splits)

text \<open>
  An instance: \<^verbatim>\<open>increment\<close> called on a Server with an empty registry, and on the Server
  that has created the counter and disposed it.
\<close>

theorem unknown_object_rejects_witness:
  "\<not> name_truthy (create call_increment) \<and> \<not> name_truthy (lookup call_increment) \<and>
   \<not> field_truthy (dispose call_increment) \<and>
   objects_get Server (objectId call_increment) = None \<and>
   onMessage Server call_increment =
     \<lparr>state = Server, sent = [], thrown = Some TypeError, minted = None\<rparr> \<and>
   objectId dispose_Counter = objectId call_increment \<and>
   thrown (onMessage (state (onMessage (state (onMessage (exposeFactory Server Counter) create_Counter))
                                dispose_Counter)) call_increment) = Some TypeError"
proof -
  have h: "\<not> name_truthy (create call_increment)" "\<not> name_truthy (lookup call_increment)"
      "\<not> field_truthy (dispose call_increment)"
    by (simp_all add: call_increment_def no_fields_def)
  have d: "\<not> name_truthy (create dispose_Counter) \<and> \<not> name_truthy (lookup dispose_Counter) \<and>
      field_truthy (dispose dispose_Counter) \<and> objectId dispose_Counter = objectId call_increment"
    by (simp add: dispose_Counter_def call_increment_def no_fields_def)
  have g: "objects_get Server (objectId call_increment) = None"
    by (simp add: objects_get_def Server_def call_increment_def no_fields_def)
  note empty = unknown_object_rejects [OF h, of Server]
  note disposed = unknown_object_rejects
      [OF h, of "state (onMessage (exposeFactory Server Counter) create_Counter)"]
  from empty g have
      "onMessage Server call_increment = \<lparr>state = Server, sent = [], thrown = Some TypeError, minted = None\<rparr>"
    by blast
  moreover from disposed d have
      "onMessage (state (onMessage (state (onMessage (exposeFactory Server Counter) create_Counter))
                           dispose_Counter)) call_increment =
       \<lparr>state = state (onMessage (state (onMessage (exposeFactory Server Counter) create_Counter))
                         dispose_Counter),
        sent = [], thrown = Some TypeError, minted = None\<rparr>"
    by blast
  then have
      "thrown (onMessage (state (onMessage (state (onMessage (exposeFactory Server Counter) create_Counter))
                                   dispose_Counter)) call_increment) = Some TypeError"
    by simp
  ultimately show ?thesis using h d g by blast
qed

text \<open>
  The claim as written has the failure sent back to the caller. In the scenario of the
  specification (create the counter, dispose it, call \<^verbatim>\<open>increment\<close>) the third message
  gets no response at all, and what is raised is a \<^verbatim>\<open>TypeError\<close>.
\<close>

theorem unknown_object_no_response:
  "minted (serve (exposeFactory Server Counter) [create_Counter, dispose_Counter, call_increment] ! 0)
     = Some ''create#Counter#1#'' \<and>
   sent (serve (exposeFactory Server Counter) [create_Counter, dispose_Counter, call_increment] ! 2) = [] \<and>
   thrown (serve (exposeFactory Server Counter) [create_Counter, dispose_Counter, call_increment] ! 2)
     = Some TypeError"
  by (simp add: server_eval Counter_def counter_proto_def create_Counter_def dispose_Counter_def
        call_increment_def)

text \<open>
  C6, amended. An invoke message for a registered object whose host method raises \<open>e\<close>
  makes \<^verbatim>\<open>onMessage_\<close> raise \<open>e\<close>: the promise it returns is rejected with \<open>e\<close>. What has
  been sent by then are the events the method emitted, none of which carries an \<^verbatim>\<open>id\<close>;
  no response is sent. The Server keeps its registry, catalogs and counter; only the state
  of the object is what the method left.
\<close>

theorem raising_method_rejects:
  assumes "\<not> name_truthy (create m)" and "\<not> name_truthy (lookup m)" and "\<not> field_truthy (dispose m)"
      and "objects_get s (objectId m) = Some a" and "args m = Some as"
      and "method_name m = Some k" and "k = ''emit'' \<longrightarrow> hemit (heap s a) = None"
      and "hmeths (heap s a) k = Some f"
      and "returned (f (hstate (heap s a)) as) = Inl e"
  shows "thrown (onMessage s m) = Some e \<and>
         sent (onMessage s m) =
           concat (map (\<lambda>(event, eas). emit_closure (heap s a) event eas)
                       (emitted (f (hstate (heap s a)) as))) \<and>
         (\<forall>r \<in> set (sent (onMessage s m)). id r = None) \<and>
         state (onMessage s m) =
           s\<lparr>heap := (heap s)(a := (heap s a)\<lparr>hstate := new_state (f (hstate (heap s a)) as)\<rparr>)\<rparr>"
proof -
  let ?r = "f (hstate (heap s a)) as"
  let ?events = "concat (map (\<lambda>(event, eas). emit_closure (heap s a) event eas) (emitted ?r))"
  have "(if k = ''emit'' then hemit (heap s a) else None) = None"
    using assms(7) by simp
  then have r: "onMessage s m =
      rejected (s\<lparr>heap := (heap s)(a := (heap s a)\<lparr>hstate := new_state ?r\<rparr>)\<rparr>) ?events e None"
    using assms by (simp add: onMessage_def invoke_def Let_def)
  have "id r = None" if "r \<in> set ?events" for r
    using that by (auto simp: emit_closure_def event_message_def no_fields_def split: option.splits)
  then show ?thesis by (simp add: r rejected_def)
qed

text \<open>An instance: \<^verbatim>\<open>fail\<close> called on a \<open>Failing\<close> object that has just been created.\<close>

theorem raising_method_rejects_witness:
  "\<not> name_truthy (create call_fail) \<and> \<not> name_truthy (lookup call_fail) \<and>
   \<not> field_truthy (dispose call_fail) \<and>
   objects_get (state (onMessage (exposeFactory Server Failing) create_Failing)) (objectId call_fail) = Some 0 \<and>
   args call_fail = Some [] \<and> method_name call_fail = Some ''fail'' \<and>
   hmeths (heap (state (onMessage (exposeFactory Server Failing) create_Failing)) 0) ''fail'' = Some fail \<and>
   returned (fail (hstate (heap (state (onMessage (exposeFactory Server Failing) create_Failing)) 0)) [])
     = Inl (Thrown (JStr ''boom'')) \<and>
   thrown (onMessage (state (onMessage (exposeFactory Server Failing) create_Failing)) call_fail)
     = Some (Thrown (JStr ''boom'')) \<and>
   sent (onMessage (state (onMessage (exposeFactory Server Failing) create_Failing)) call_fail) = []"
proof -
  define s where "s = state (onMessage (exposeFactory Server Failing) create_Failing)"
  have h: "\<not> name_truthy (create call_fail)" "\<not> name_truthy (lookup call_fail)"
      "\<not> field_truthy (dispose call_fail)"
    by (simp_all add: call_fail_def no_fields_def)
  have o: "objects_get s (objectId call_fail) = Some 0"
    unfolding s_def by (simp add: server_eval Failing_def create_Failing_def call_fail_def)
  have a: "args call_fail = Some []" and k: "method_name call_fail = Some ''fail''"
    by (simp_all add: call_fail_def no_fields_def)
  have n: "''fail'' = ''emit'' \<longrightarrow> hemit (heap s 0) = None"
    by simp
  have f: "hmeths (heap s 0) ''fail'' = Some fail"
    unfolding s_def by (simp add: onMessage_def register_def alloc_def describe_def for_in_keys_def
        is_array_index_def is_digit_def exposeFactory_def Server_def Failing_def create_Failing_def
        no_fields_def Let_def)
  have e: "returned (fail (hstate (heap s 0)) []) = Inl (Thrown (JStr ''boom''))"
    by (simp add: fail_def)
  have none: "emitted (fail (hstate (heap s 0)) []) = []"
    by (simp add: fail_def)
  from raising_method_rejects [OF h o a k n f e]
  have "thrown (onMessage s call_fail) = Some (Thrown (JStr ''boom''))"
    and "sent (onMessage s call_fail) = []"
    by (simp_all add: none)
  then show ?thesis using h o a k f e unfolding s_def by blast
qed

text \<open>
  The claim as written has the error sent back to the caller. When \<^verbatim>\<open>fail\<close> is called on
  a \<open>Failing\<close> object, nothing is sent.
\<close>

theorem raising_method_no_response:
  "minted (serve (exposeFactory Server Failing) [create_Failing, call_fail] ! 0)
     = Some ''create#Failing#1#'' \<and>
   sent (serve (exposeFactory Server Failing) [create_Failing, call_fail] ! 1) = [] \<and>
   thrown (serve (exposeFactory Server Failing) [create_Failing, call_fail] ! 1)
     = Some (Thrown (JStr ''boom''))"
  by (simp add: server_eval Failing_def fail_def create_Failing_def call_fail_def)

section \<open>Requests and their responses\<close>

lemma send_all_effect:
  "send_all c ms = (c1, ps) \<Longrightarrow>
     lastId c1 = lastId c + length ms \<and>
     length ps = length ms \<and>
     (\<forall>k < length ms. ps ! k = length (promises c) + k) \<and>
     promises c1 = promises c @ replicate (length ms) None \<and>
     client_objects c1 = client_objects c \<and>
     (\<forall>n. n \<le> lastId c \<longrightarrow> callbacks c1 n = callbacks c n) \<and>
     (\<forall>k < length ms. callbacks c1 (lastId c + 1 + k) = Some (length (promises c) + k)) \<and>
     (\<exists>new. rpcSent c1 = rpcSent c @ new \<and> length new = length ms \<and>
        (\<forall>k < length ms. new ! k = (ms ! k)\<lparr>id := Some (lastId c + 1 + k)\<rparr>))"
proof (induction ms arbitrary: c c1 ps)
  case Nil
  then show ?case by simp
next
  case (Cons m ms)
  obtain c' p where step: "client_sendMessage c m = (c', p)" by (cases "client_sendMessage c m")
  obtain c2 ps' where rest: "send_all c' ms = (c2, ps')" by (cases "send_all c' ms")
  from Cons.prems step rest have c1: "c1 = c2" and ps: "ps = p # ps'" by simp_all
  from step have c': "lastId c' = lastId c + 1" "p = length (promises c)"
      "promises c' = promises c @ [None]" "client_objects c' = client_objects c"
      "callbacks c' = (callbacks c)(lastId c + 1 \<mapsto> length (promises c))"
      "rpcSent c' = rpcSent c @ [m\<lparr>id := Some (lastId c + 1)\<rparr>]"
    by (auto simp: client_sendMessage_def Let_def)
  note IH = Cons.IH [OF rest]
  have a: "lastId c1 = lastId c + length (m # ms)" using IH c' c1 by simp
  have b: "length ps = length (m # ms)" using IH ps by simp
  have b': "ps ! k = length (promises c) + k" if "k < length (m # ms)" for k
  proof (cases k)
    case 0
    then show ?thesis using ps c' by simp
  next
    case (Suc j)
    with that have "j < length ms" by simp
    with IH have "ps' ! j = length (promises c') + j" by blast
    then show ?thesis using c' ps Suc by simp
  qed
  have d: "promises c1 = promises c @ replicate (length (m # ms)) None"
    using IH c' c1 by simp
  have e: "client_objects c1 = client_objects c" using IH c' c1 by simp
  have f: "callbacks c1 n = callbacks c n" if "n \<le> lastId c" for n
    using IH c' c1 that by simp
  have g: "callbacks c1 (lastId c + 1 + k) = Some (length (promises c) + k)" if "k < length (m # ms)" for k
  proof (cases k)
    case 0
    then show ?thesis using IH c' c1 by simp
  next
    case (Suc j)
    with that have "j < length ms" by simp
    with IH have "callbacks c2 (lastId c' + 1 + j) = Some (length (promises c') + j)" by blast
    then show ?thesis using c' c1 Suc by simp
  qed
  from IH obtain new' where new': "rpcSent c2 = rpcSent c' @ new'" "length new' = length ms"
      "\<forall>k < length ms. new' ! k = (ms ! k)\<lparr>id := Some (lastId c' + 1 + k)\<rparr>"
    by blast
  define new where "new = m\<lparr>id := Some (lastId c + 1)\<rparr> # new'"
  have h: "rpcSent c1 = rpcSent c @ new" "length new = length (m # ms)"
    using new' c' c1 by (simp_all add: new_def)
  have i: "new ! k = ((m # ms) ! k)\<lparr>id := Some (lastId c + 1 + k)\<rparr>" if "k < length (m # ms)" for k
  proof (cases k)
    case 0
    then show ?thesis by (simp add: new_def)
  next
    case (Suc j)
    with that have "j < length ms" by simp
    with new' have "new' ! j = (ms ! j)\<lparr>id := Some (lastId c' + 1 + j)\<rparr>" by blast
    then show ?thesis using c' Suc by (simp add: new_def)
  qed
  show ?case using a b b' d e f g h i by blast
qed

text \<open>Dispatching a response whose callback exists.\<close>

lemma client_onMessage_response:
  assumes "id r = Some n" and "callbacks c n = Some p" and "p < length (promises c)"
      and "promises c ! p = None"
  shows "client_onMessage c r = Inr (c\<lparr>promises := (promises c)[p := Some (result_of r)]\<rparr>, [])"
  using assms by (simp add: client_onMessage_def fulfil_def result_of_def)

lemma deliver_all_pending:
  assumes "\<forall>k < N. callbacks c (L + 1 + k) = Some (P + k)"
      and "P + N \<le> length (promises c)"
      and "distinct (map id rs)"
      and "\<forall>r \<in> set rs. \<exists>k < N. id r = Some (L + 1 + k) \<and> promises c ! (P + k) = None"
  shows "\<exists>c2. deliver_all c rs = Inr c2 \<and>
           (\<forall>k < N. (\<forall>r \<in> set rs. id r = Some (L + 1 + k) \<longrightarrow> promises c2 ! (P + k) = Some (result_of r)) \<and>
                     ((\<forall>r \<in> set rs. id r \<noteq> Some (L + 1 + k)) \<longrightarrow> promises c2 ! (P + k) = promises c ! (P + k)))"
  using assms
proof (induction rs arbitrary: c)
  case Nil
  then show ?case by simp
next
  case (Cons r rs)
  from Cons.prems(4) obtain k0 where k0: "k0 < N" "id r = Some (L + 1 + k0)" "promises c ! (P + k0) = None"
    by auto
  define c1 where "c1 = c\<lparr>promises := (promises c)[P + k0 := Some (result_of r)]\<rparr>"
  have cb: "callbacks c (L + 1 + k0) = Some (P + k0)" using Cons.prems(1) k0 by blast
  have inr: "P + k0 < length (promises c)" using Cons.prems(2) k0 by simp
  have step: "client_onMessage c r = Inr (c1, [])"
    unfolding c1_def using k0(2) cb inr k0(3) by (rule client_onMessage_response)
  have fresh: "\<forall>r' \<in> set rs. id r' \<noteq> Some (L + 1 + k0)"
    using Cons.prems(3) k0(2) by force
  have p1: "\<forall>k < N. callbacks c1 (L + 1 + k) = Some (P + k)"
    using Cons.prems(1) by (simp add: c1_def)
  have p2: "P + N \<le> length (promises c1)" using Cons.prems(2) by (simp add: c1_def)
  have p3: "distinct (map id rs)" using Cons.prems(3) by simp
  have p4: "\<forall>r' \<in> set rs. \<exists>k < N. id r' = Some (L + 1 + k) \<and> promises c1 ! (P + k) = None"
  proof
    fix r' assume r': "r' \<in> set rs"
    with Cons.prems(4) obtain k where k: "k < N" "id r' = Some (L + 1 + k)" "promises c ! (P + k) = None"
      by auto
    with fresh r' have "k \<noteq> k0" by auto
    then have "promises c1 ! (P + k) = None" using k by (simp add: c1_def)
    with k show "\<exists>k < N. id r' = Some (L + 1 + k) \<and> promises c1 ! (P + k) = None" by blast
  qed
  from Cons.IH [OF p1 p2 p3 p4] obtain c2 where c2: "deliver_all c1 rs = Inr c2"
      "\<forall>k < N. (\<forall>r \<in> set rs. id r = Some (L + 1 + k) \<longrightarrow> promises c2 ! (P + k) = Some (result_of r)) \<and>
                ((\<forall>r \<in> set rs. id r \<noteq> Some (L + 1 + k)) \<longrightarrow> promises c2 ! (P + k) = promises c1 ! (P + k))"
    by blast
  have d: "deliver_all c (r # rs) = Inr c2" using step c2(1) by simp
  have own: "promises c2 ! (P + k0) = Some (result_of r)"
    using c2(2) k0(1) fresh inr by (simp add: c1_def)
  have "(\<forall>r' \<in> set (r # rs). id r' = Some (L + 1 + k) \<longrightarrow> promises c2 ! (P + k) = Some (result_of r')) \<and>
        ((\<forall>r' \<in> set (r # rs). id r' \<noteq> Some (L + 1 + k)) \<longrightarrow> promises c2 ! (P + k) = promises c ! (P + k))"
    if "k < N" for k
  proof (cases "k = k0")
    case True
    with own k0 fresh show ?thesis by auto
  next
    case False
    then have "promises c1 ! (P + k) = promises c ! (P + k)" by (simp add: c1_def)
    with c2(2) that False k0 show ?thesis by auto
  qed
  with d show ?case by blast
qed


text \<open>
  C3. Let \<open>N\<close> requests be sent one after the other, so that all are in flight, and let
  responses be dispatched in any order, at most one for each of these requests (all \<open>N\<close>
  of them, in a permuted order, is a case). The request sent \<open>k\<close>-th carries the id
  \<^verbatim>\<open>lastId_\<close> + 1 + \<open>k\<close>; no dispatch raises; afterwards the promise of each request that
  has a response is fulfilled with the result of the response that bears its id, and the
  promise of a request with no response yet is still pending.
\<close>

theorem responses_resolve_by_id:
  assumes "send_all c ms = (c1, ps)"
      and "distinct (map id rs)"
      and "\<forall>r \<in> set rs. \<exists>k < length ms. id r = Some (lastId c + 1 + k)"
  shows "length ps = length ms \<and>
         (\<forall>k < length ms. id (rpcSent c1 ! (length (rpcSent c) + k)) = Some (lastId c + 1 + k)) \<and>
         (\<exists>c2. deliver_all c1 rs = Inr c2 \<and>
            (\<forall>k < length ms.
               (\<forall>r \<in> set rs. id r = Some (lastId c + 1 + k) \<longrightarrow>
                    promises c2 ! (ps ! k) = Some (result_of r)) \<and>
               ((\<forall>r \<in> set rs. id r \<noteq> Some (lastId c + 1 + k)) \<longrightarrow>
                    promises c2 ! (ps ! k) = None)))"
proof -
  note eff = send_all_effect [OF assms(1)]
  from eff have len: "length ps = length ms" and ps: "\<forall>k < length ms. ps ! k = length (promises c) + k"
    and pr: "promises c1 = promises c @ replicate (length ms) None"
    and cb: "\<forall>k < length ms. callbacks c1 (lastId c + 1 + k) = Some (length (promises c) + k)"
    by blast+
  from eff obtain new where new: "rpcSent c1 = rpcSent c @ new" "length new = length ms"
      "\<forall>k < length ms. new ! k = (ms ! k)\<lparr>id := Some (lastId c + 1 + k)\<rparr>"
    by blast
  have ids: "id (rpcSent c1 ! (length (rpcSent c) + k)) = Some (lastId c + 1 + k)" if "k < length ms" for k
    using new that by simp
  have pending: "promises c1 ! (length (promises c) + k) = None" if "k < length ms" for k
    using that by (simp add: pr)
  have room: "length (promises c) + length ms \<le> length (promises c1)"
    by (simp add: pr)
  have tgt: "\<forall>r \<in> set rs. \<exists>k < length ms. id r = Some (lastId c + 1 + k)
      \<and> promises c1 ! (length (promises c) + k) = None"
    using assms(3) pending by blast
  from deliver_all_pending [OF cb room assms(2) tgt] obtain c2 where c2: "deliver_all c1 rs = Inr c2"
      "\<forall>k < length ms.
         (\<forall>r \<in> set rs. id r = Some (lastId c + 1 + k) \<longrightarrow>
              promises c2 ! (length (promises c) + k) = Some (result_of r)) \<and>
         ((\<forall>r \<in> set rs. id r \<noteq> Some (lastId c + 1 + k)) \<longrightarrow>
              promises c2 ! (length (promises c) + k) = promises c1 ! (length (promises c) + k))"
    by blast
  have "(\<forall>r \<in> set rs. id r = Some (lastId c + 1 + k) \<longrightarrow> promises c2 ! (ps ! k) = Some (result_of r)) \<and>
        ((\<forall>r \<in> set rs. id r \<noteq> Some (lastId c + 1 + k)) \<longrightarrow> promises c2 ! (ps ! k) = None)"
    if "k < length ms" for k
    using c2(2) ps pending that by simp
  with c2(1) len ids show ?thesis by blast
qed

text \<open>Two calls in flight, answered in the opposite order.\<close>

theorem responses_resolve_by_id_witness:
  "map id [response 2 (JNum 20), response 1 (JNum 10)] = [Some 2, Some 1] \<and>
   snd (send_all Client [call_increment, call_increment]) = [0, 1] \<and>
   map id (rpcSent (fst (send_all Client [call_increment, call_increment]))) = [Some 1, Some 2] \<and>
   (\<exists>c2. deliver_all (fst (send_all Client [call_increment, call_increment]))
             [response 2 (JNum 20), response 1 (JNum 10)] = Inr c2 \<and>
         promises c2 ! 0 = Some (JNum 10) \<and> promises c2 ! 1 = Some (JNum 20))"
proof -
  define c1 where "c1 = fst (send_all Client [call_increment, call_increment])"
  have s: "send_all Client [call_increment, call_increment] = (c1, [0, 1])"
    by (simp add: c1_def client_sendMessage_def Client_def Let_def)
  have d: "distinct (map id [response 2 (JNum 20), response 1 (JNum 10)])"
    by (simp add: response_def no_fields_def)
  have i: "map id [response 2 (JNum 20), response 1 (JNum 10)] = [Some 2, Some 1]"
    by (simp add: response_def no_fields_def)
  have t: "\<forall>r \<in> set [response 2 (JNum 20), response 1 (JNum 10)].
      \<exists>k < length [call_increment, call_increment]. id r = Some (lastId Client + 1 + k)"
    by (auto simp: response_def no_fields_def Client_def)
  have sent: "map id (rpcSent c1) = [Some 1, Some 2]"
    by (simp add: c1_def client_sendMessage_def Client_def Let_def)
  from responses_resolve_by_id [OF s d t] obtain c2 where
      c2: "deliver_all c1 [response 2 (JNum 20), response 1 (JNum 10)] = Inr c2"
      and each: "\<forall>k < length [call_increment, call_increment].
         (\<forall>r \<in> set [response 2 (JNum 20), response 1 (JNum 10)].
             id r = Some (lastId Client + 1 + k) \<longrightarrow> promises c2 ! ([0, 1] ! k) = Some (result_of r))"
    by blast
  from each [rule_format, of 0 "response 1 (JNum 10)"]
  have "promises c2 ! 0 = Some (JNum 10)"
    by (simp add: response_def no_fields_def Client_def result_of_def)
  moreover from each [rule_format, of 1 "response 2 (JNum 20)"]
  have "promises c2 ! 1 = Some (JNum 20)"
    by (simp add: response_def no_fields_def Client_def result_of_def)
  ultimately show ?thesis using c2 i s sent unfolding c1_def [symmetric] by auto
qed

section \<open>Request identifiers and the pending calls\<close>

lemma client_sendMessage_effect:
  "client_sendMessage c m = (c1, p) \<Longrightarrow>
     lastId c1 = lastId c + 1 \<and> rpcSent c1 = rpcSent c @ [m\<lparr>id := Some (lastId c + 1)\<rparr>] \<and>
     callbacks c1 = (callbacks c)(lastId c + 1 \<mapsto> p)"
  by (auto simp: client_sendMessage_def Let_def)

lemma client_onMessage_frame:
  "client_onMessage c r = Inr (c1, calls) \<Longrightarrow>
     lastId c1 = lastId c \<and> rpcSent c1 = rpcSent c \<and> callbacks c1 = callbacks c"
  by (auto simp: client_onMessage_def split: option.splits)

lemma client_step_effect:
  "(sends x \<longrightarrow> lastId (client_step c x) = lastId c + 1 \<and>
       (\<exists>m. rpcSent (client_step c x) = rpcSent c @ [m] \<and> id m = Some (lastId c + 1))) \<and>
   (\<not> sends x \<longrightarrow> lastId (client_step c x) = lastId c \<and> rpcSent (client_step c x) = rpcSent c) \<and>
   (\<forall>n. callbacks c n \<noteq> None \<longrightarrow> callbacks (client_step c x) n \<noteq> None)"
proof (cases x)
  case (Dispatch r)
  then show ?thesis
    by (cases "client_onMessage c r") (auto dest: client_onMessage_frame)
qed (auto simp: client_create_def client_lookup_def proxy_call_def proxy_dispose_def wrap_def
          proxy_on_def proxy_off_def client_sendMessage_def Let_def split: option.splits)

lemma client_run_effect:
  "\<exists>new. rpcSent (client_run c ops) = rpcSent c @ new \<and>
         length new = length (filter sends ops) \<and>
         lastId (client_run c ops) = lastId c + length new \<and>
         (\<forall>k < length new. id (new ! k) = Some (lastId c + 1 + k)) \<and>
         (\<forall>n. callbacks c n \<noteq> None \<longrightarrow> callbacks (client_run c ops) n \<noteq> None)"
proof (induction ops arbitrary: c)
  case Nil
  show ?case by simp
next
  case (Cons x xs)
  let ?c = "client_step c x"
  from Cons [of ?c] obtain new' where new': "rpcSent (client_run ?c xs) = rpcSent ?c @ new'"
      "length new' = length (filter sends xs)"
      "lastId (client_run ?c xs) = lastId ?c + length new'"
      "\<forall>k < length new'. id (new' ! k) = Some (lastId ?c + 1 + k)"
      "\<forall>n. callbacks ?c n \<noteq> None \<longrightarrow> callbacks (client_run ?c xs) n \<noteq> None"
    by blast
  note eff = client_step_effect [of x c]
  have kept: "\<forall>n. callbacks c n \<noteq> None \<longrightarrow> callbacks (client_run c (x # xs)) n \<noteq> None"
    using eff new'(5) by simp
  show ?case
  proof (cases "sends x")
    case True
    with eff obtain m where m: "rpcSent ?c = rpcSent c @ [m]" "id m = Some (lastId c + 1)"
        "lastId ?c = lastId c + 1"
      by blast
    have "id ((m # new') ! k) = Some (lastId c + 1 + k)" if "k < length (m # new')" for k
      using that new'(4) m by (cases k) simp_all
    then show ?thesis using True new' m kept
      by (intro exI [of _ "m # new'"]) simp
  next
    case False
    with eff have "rpcSent ?c = rpcSent c" "lastId ?c = lastId c" by blast+
    then show ?thesis using False new' kept
      by (intro exI [of _ new']) simp
  qed
qed

text \<open>
  C8, amended. In every run of the Client (requests to create and look up, stub calls,
  disposals, listeners added and removed, messages dispatched), the requests sent carry
  the ids \<^verbatim>\<open>lastId_\<close> + 1, + 2, ... in the order of sending, so no id is used twice. An
  entry of the pending-call map is never removed: the keys present before a run are
  present after it, and dispatching a message leaves the map as it was (a response only
  fulfils the promise).
\<close>

theorem request_ids_never_reused:
  "(\<exists>new. rpcSent (client_run c ops) = rpcSent c @ new \<and>
          length new = length (filter sends ops) \<and>
          (\<forall>k < length new. id (new ! k) = Some (lastId c + 1 + k)) \<and>
          distinct (map id new)) \<and>
   (\<forall>n. callbacks c n \<noteq> None \<longrightarrow> callbacks (client_run c ops) n \<noteq> None) \<and>
   (\<forall>r c1 calls. client_onMessage c r = Inr (c1, calls) \<longrightarrow> callbacks c1 = callbacks c)"
proof -
  from client_run_effect [of c ops] obtain new where new: "rpcSent (client_run c ops) = rpcSent c @ new"
      "length new = length (filter sends ops)"
      "\<forall>k < length new. id (new ! k) = Some (lastId c + 1 + k)"
      "\<forall>n. callbacks c n \<noteq> None \<longrightarrow> callbacks (client_run c ops) n \<noteq> None"
    by blast
  have "distinct (map id new)"
    using new(3) by (auto simp: distinct_conv_nth)
  moreover have "\<forall>r c1 calls. client_onMessage c r = Inr (c1, calls) \<longrightarrow> callbacks c1 = callbacks c"
    using client_onMessage_frame by blast
  ultimately show ?thesis using new by blast
qed

text \<open>A run with three requests and a response in between.\<close>

theorem request_ids_never_reused_witness:
  "map id (rpcSent (client_run Client
       [Create ''Counter'', Dispatch (response 1 JNull), Call ''create#Counter#1#'' ''increment'' [],
        Dispose ''create#Counter#1#''])) = [Some 1, Some 2, Some 3] \<and>
   (\<exists>new. rpcSent (client_run Client
       [Create ''Counter'', Dispatch (response 1 JNull), Call ''create#Counter#1#'' ''increment'' [],
        Dispose ''create#Counter#1#'']) = rpcSent Client @ new \<and>
      length new = 3 \<and> distinct (map id new))"
proof -
  have ids: "map id (rpcSent (client_run Client
       [Create ''Counter'', Dispatch (response 1 JNull), Call ''create#Counter#1#'' ''increment'' [],
        Dispose ''create#Counter#1#''])) = [Some 1, Some 2, Some 3]"
    by (simp add: client_create_def proxy_call_def proxy_dispose_def client_sendMessage_def
          client_onMessage_def fulfil_def response_def no_fields_def Client_def Let_def)
  from request_ids_never_reused [of Client
       "[Create ''Counter'', Dispatch (response 1 JNull), Call ''create#Counter#1#'' ''increment'' [],
         Dispose ''create#Counter#1#'']"]
  obtain new where "rpcSent (client_run Client
       [Create ''Counter'', Dispatch (response 1 JNull), Call ''create#Counter#1#'' ''increment'' [],
        Dispose ''create#Counter#1#'']) = rpcSent Client @ new"
      and "length new = length (filter sends
       [Create ''Counter'', Dispatch (response 1 JNull), Call ''create#Counter#1#'' ''increment'' [],
        Dispose ''create#Counter#1#''])"
      and "distinct (map id new)"
    by blast
  then have "\<exists>new. rpcSent (client_run Client
       [Create ''Counter'', Dispatch (response 1 JNull), Call ''create#Counter#1#'' ''increment'' [],
        Dispose ''create#Counter#1#'']) = rpcSent Client @ new \<and>
      length new = 3 \<and> distinct (map id new)"
    by (intro exI [of _ new]) simp
  with ids show ?thesis by blast
qed

text \<open>
  The claim as written has the entry removed when the response arrives. After a request
  to create and its response, the promise is fulfilled and the entry for id 1 is still
  in the map.
\<close>

theorem callback_stays_after_response:
  "callbacks (client_run Client [Create ''Counter'']) 1 = Some 0 \<and>
   promises (client_run Client [Create ''Counter'', Dispatch (response 1 JNull)]) = [Some JNull] \<and>
   callbacks (client_run Client [Create ''Counter'', Dispatch (response 1 JNull)]) 1 = Some 0"
  by (simp add: client_create_def client_sendMessage_def client_onMessage_def fulfil_def
        response_def no_fields_def Client_def Let_def)

section \<open>A service looked up more than once\<close>

lemma onMessage_services: "services (state (onMessage s m)) = services s"
  by (simp add: onMessage_cases register_frame invoke_frame rejected_def alloc_def split: option.splits)

lemma serve_state_services: "services (serve_state s ms) = services s"
  by (induction ms arbitrary: s) (simp_all add: onMessage_services)

lemma onMessage_lastObjectId_mono: "lastObjectId s \<le> lastObjectId (state (onMessage s m))"
  by (simp add: onMessage_lastObjectId)

lemma serve_state_lastObjectId_mono: "lastObjectId s \<le> lastObjectId (serve_state s ms)"
proof (induction ms arbitrary: s)
  case Nil
  show ?case by simp
next
  case (Cons m ms)
  have "lastObjectId s \<le> lastObjectId (state (onMessage s m))" by (rule onMessage_lastObjectId_mono)
  also have "\<dots> \<le> lastObjectId (serve_state (state (onMessage s m)) ms)" by (rule Cons)
  finally show ?case by simp
qed

lemma lookup_known_service:
  assumes "name \<noteq> []" and "services s name = Some a"
      and "\<not> name_truthy (create m)" and "lookup m = Some name"
  shows "minted (onMessage s m) = Some (mint ''lookup'' name (lastObjectId s + 1)) \<and>
         hemit (heap (state (onMessage s m)) a) = Some (mint ''lookup'' name (lastObjectId s + 1)) \<and>
         lastObjectId (state (onMessage s m)) = lastObjectId s + 1"
  using assms
  by (simp add: onMessage_def register_def rejected_def Let_def split: sum.splits)

lemma mint_inj: "mint kind name n = mint kind' name' n' \<Longrightarrow> n = n'"
  using seq_of_mint by metis

lemma register_hemit:
  "hemit (heap (state (register s m oid obj)) b) = (if obj = Some b then Some oid else hemit (heap s b))"
  by (simp add: register_def rejected_def Let_def split: option.splits sum.splits)

lemma register_nextAddr: "nextAddr (state (register s m oid obj)) = nextAddr s"
  by (simp add: register_def rejected_def Let_def split: option.splits sum.splits)

lemma invoke_hemit: "hemit (heap (state (invoke s m)) b) = hemit (heap s b)"
  by (simp add: invoke_def rejected_def Let_def split: option.splits sum.splits)

lemma invoke_nextAddr: "nextAddr (state (invoke s m)) = nextAddr s"
  by (simp add: invoke_def rejected_def Let_def split: option.splits sum.splits)

lemma onMessage_hemit:
  "hemit (heap (state (onMessage s m)) b) =
     (case origin m of
        None \<Rightarrow> hemit (heap s b)
      | Some (kind, name) \<Rightarrow>
          if kind = ''create'' then
            (case factories s name of
               None \<Rightarrow> hemit (heap s b)
             | Some c \<Rightarrow> if b = nextAddr s then Some (mint ''create'' name (lastObjectId s + 1))
                         else hemit (heap s b))
          else if services s name = Some b then Some (mint ''lookup'' name (lastObjectId s + 1))
          else hemit (heap s b))"
  by (auto simp: onMessage_cases register_hemit invoke_hemit rejected_def alloc_def
           split: option.splits)

lemma onMessage_nextAddr_mono: "nextAddr s \<le> nextAddr (state (onMessage s m))"
  by (simp add: onMessage_cases register_nextAddr invoke_nextAddr rejected_def alloc_def
           split: option.splits)

lemma rebinds_state: "rebinds (state (onMessage s m')) a m = rebinds s a m"
  by (simp add: rebinds_def onMessage_services cong: option.case_cong)

lemma hemit_frame:
  assumes "a < nextAddr s" and "\<not> rebinds s a m"
  shows "hemit (heap (state (onMessage s m)) a) = hemit (heap s a)"
  using assms by (auto simp: onMessage_hemit rebinds_def split: option.splits dest: origin_kinds)

lemma serve_state_hemit_frame:
  assumes "a < nextAddr s" and "\<forall>m \<in> set ms. \<not> rebinds s a m"
  shows "hemit (heap (serve_state s ms) a) = hemit (heap s a)"
  using assms
proof (induction ms arbitrary: s)
  case Nil
  show ?case by simp
next
  case (Cons m ms)
  let ?s = "state (onMessage s m)"
  have "a < nextAddr ?s"
    using Cons.prems(1) onMessage_nextAddr_mono [of s m] by simp
  moreover have "\<forall>m' \<in> set ms. \<not> rebinds ?s a m'"
    using Cons.prems(2) by (simp add: rebinds_state)
  ultimately have "hemit (heap (serve_state ?s ms) a) = hemit (heap ?s a)" by (rule Cons.IH)
  moreover have "hemit (heap ?s a) = hemit (heap s a)"
    using Cons.prems by (simp add: hemit_frame)
  ultimately show ?case by simp
qed

lemma onMessage_stale:
  assumes "n \<le> lastObjectId s" and "hemit (heap s b) \<noteq> Some (mint kind name n)"
  shows "hemit (heap (state (onMessage s m)) b) \<noteq> Some (mint kind name n)"
proof -
  have "mint kind' name' (lastObjectId s + 1) \<noteq> mint kind name n" for kind' name'
    using assms(1) mint_inj [of kind' name' "lastObjectId s + 1" kind name n] by auto
  then show ?thesis using assms(2)
    by (auto simp: onMessage_hemit split: option.splits)
qed

lemma serve_state_stale:
  assumes "n \<le> lastObjectId s" and "hemit (heap s b) \<noteq> Some (mint kind name n)"
  shows "hemit (heap (serve_state s ms) b) \<noteq> Some (mint kind name n)"
  using assms
proof (induction ms arbitrary: s)
  case Nil
  then show ?case by simp
next
  case (Cons m ms)
  let ?s = "state (onMessage s m)"
  have "n \<le> lastObjectId ?s"
    using Cons.prems(1) onMessage_lastObjectId_mono [of s m] by simp
  moreover have "hemit (heap ?s b) \<noteq> Some (mint kind name n)"
    using Cons.prems by (rule onMessage_stale)
  ultimately show ?case using Cons.IH [of ?s] by simp
qed

lemma invoke_events:
  assumes "e \<in> set (sent (invoke s m))" and "is_event e"
  shows "\<exists>a. objects_get s (objectId m) = Some a \<and> objectId e = hemit (heap s a)"
  using assms
  by (auto simp: invoke_def rejected_def Let_def is_event_def emit_closure_def emit_remote_def
        event_message_def no_fields_def split: option.splits sum.splits list.splits jsval.splits if_splits)

lemma register_no_events: "e \<in> set (sent (register s m oid obj)) \<Longrightarrow> \<not> is_event e"
  by (auto simp: register_def rejected_def Let_def is_event_def no_fields_def
           split: option.splits sum.splits)

lemma onMessage_events:
  assumes "e \<in> set (sent (onMessage s m))" and "is_event e"
  shows "\<exists>a. objects_get s (objectId m) = Some a \<and> objectId e = hemit (heap s a)"
  using assms
  by (auto simp: onMessage_cases rejected_def split: option.splits if_splits
           dest: register_no_events invoke_events)


lemma serve_state_nextAddr_mono: "nextAddr s \<le> nextAddr (serve_state s ms)"
proof (induction ms arbitrary: s)
  case Nil
  show ?case by simp
next
  case (Cons m ms)
  have "nextAddr s \<le> nextAddr (state (onMessage s m))" by (rule onMessage_nextAddr_mono)
  also have "\<dots> \<le> nextAddr (serve_state (state (onMessage s m)) ms)" by (rule Cons)
  finally show ?case by simp
qed

lemma rebinds_services: "services s' = services s \<Longrightarrow> rebinds s' a m = rebinds s a m"
  by (simp add: rebinds_def cong: option.case_cong)

lemma onMessage_hemit_changed:
  assumes "hemit (heap (state (onMessage s m)) b) \<noteq> hemit (heap s b)"
  shows "mints s m \<and>
         (\<exists>kind name. hemit (heap (state (onMessage s m)) b) = Some (mint kind name (lastObjectId s + 1)))"
proof (cases "origin m")
  case None
  with assms show ?thesis by (simp add: onMessage_hemit)
next
  case (Some kn)
  obtain kind name where kn: "kn = (kind, name)" by (cases kn)
  show ?thesis
  proof (cases "kind = ''create''")
    case True
    with assms Some kn obtain c where c: "factories s name = Some c" and b: "b = nextAddr s"
      by (auto simp: onMessage_hemit split: option.splits if_splits)
    have "mints s m" using Some kn c by (simp add: mints_def)
    moreover have "hemit (heap (state (onMessage s m)) b) = Some (mint ''create'' name (lastObjectId s + 1))"
      using Some kn True c b by (simp add: onMessage_hemit)
    ultimately show ?thesis by blast
  next
    case False
    with Some kn have lk: "kind = ''lookup''" using origin_kinds by blast
    from assms Some kn False have sv: "services s name = Some b"
      by (auto simp: onMessage_hemit split: if_splits)
    have "mints s m" using Some kn lk by (simp add: mints_def)
    moreover have "hemit (heap (state (onMessage s m)) b) = Some (mint ''lookup'' name (lastObjectId s + 1))"
      using Some kn False sv by (simp add: onMessage_hemit)
    ultimately show ?thesis by blast
  qed
qed

lemma minted_closures_step:
  assumes "\<forall>b oid. hemit (heap s b) = Some oid \<longrightarrow> (\<exists>kind name n. oid = mint kind name n \<and> n \<le> lastObjectId s)"
  shows "\<forall>b oid. hemit (heap (state (onMessage s m)) b) = Some oid \<longrightarrow>
           (\<exists>kind name n. oid = mint kind name n \<and> n \<le> lastObjectId (state (onMessage s m)))"
proof (intro allI impI)
  fix b oid
  assume h: "hemit (heap (state (onMessage s m)) b) = Some oid"
  show "\<exists>kind name n. oid = mint kind name n \<and> n \<le> lastObjectId (state (onMessage s m))"
  proof (cases "hemit (heap (state (onMessage s m)) b) = hemit (heap s b)")
    case True
    with h have "hemit (heap s b) = Some oid" by simp
    with assms obtain kind name n where "oid = mint kind name n" and "n \<le> lastObjectId s" by blast
    moreover have "lastObjectId s \<le> lastObjectId (state (onMessage s m))"
      by (rule onMessage_lastObjectId_mono)
    ultimately have "oid = mint kind name n \<and> n \<le> lastObjectId (state (onMessage s m))" by simp
    then show ?thesis by blast
  next
    case False
    from onMessage_hemit_changed [OF False] obtain kind name where
        m: "mints s m" and
        "hemit (heap (state (onMessage s m)) b) = Some (mint kind name (lastObjectId s + 1))"
      by blast
    with h have "oid = mint kind name (lastObjectId s + 1)" by simp
    moreover have "lastObjectId s + 1 \<le> lastObjectId (state (onMessage s m))"
      using m by (simp add: onMessage_lastObjectId)
    ultimately show ?thesis by blast
  qed
qed

lemma serve_state_minted_closures:
  assumes "\<forall>b oid. hemit (heap s b) = Some oid \<longrightarrow> (\<exists>kind name n. oid = mint kind name n \<and> n \<le> lastObjectId s)"
  shows "\<forall>b oid. hemit (heap (serve_state s ms) b) = Some oid \<longrightarrow>
           (\<exists>kind name n. oid = mint kind name n \<and> n \<le> lastObjectId (serve_state s ms))"
  using assms
proof (induction ms arbitrary: s)
  case Nil
  then show ?case by simp
next
  case (Cons m ms)
  from Cons.prems have "\<forall>b oid. hemit (heap (state (onMessage s m)) b) = Some oid \<longrightarrow>
      (\<exists>kind name n. oid = mint kind name n \<and> n \<le> lastObjectId (state (onMessage s m)))"
    by (rule minted_closures_step)
  then have "\<forall>b oid. hemit (heap (serve_state (state (onMessage s m)) ms) b) = Some oid \<longrightarrow>
      (\<exists>kind name n. oid = mint kind name n \<and> n \<le> lastObjectId (serve_state (state (onMessage s m)) ms))"
    by (rule Cons.IH)
  then show ?case by simp
qed

lemma fresh_id_reachable:
  assumes "\<forall>b. hemit (heap s0 b) = None"
  shows "hemit (heap (serve_state s0 ms) b) \<noteq> Some (mint kind name (lastObjectId (serve_state s0 ms) + 1))"
proof
  assume h: "hemit (heap (serve_state s0 ms) b) = Some (mint kind name (lastObjectId (serve_state s0 ms) + 1))"
  have "\<forall>b oid. hemit (heap s0 b) = Some oid \<longrightarrow> (\<exists>kind name n. oid = mint kind name n \<and> n \<le> lastObjectId s0)"
    using assms by simp
  then have "\<forall>b oid. hemit (heap (serve_state s0 ms) b) = Some oid \<longrightarrow>
      (\<exists>kind name n. oid = mint kind name n \<and> n \<le> lastObjectId (serve_state s0 ms))"
    by (rule serve_state_minted_closures)
  with h obtain kind' name' n where
      eq: "mint kind name (lastObjectId (serve_state s0 ms) + 1) = mint kind' name' n"
      and le: "n \<le> lastObjectId (serve_state s0 ms)"
    by blast
  from eq have "lastObjectId (serve_state s0 ms) + 1 = n" by (rule mint_inj)
  with le show False by simp
qed

text \<open>
  C9. Let a service be registered under \<open>name\<close>, the object at address \<open>a\<close>, and let it
  be looked up twice, with any messages handled in between. Each lookup mints its
  identifier and stores in the object's \<^verbatim>\<open>emit\<close> the closure over it; the second
  identifier differs from the first. After the second lookup an emission of the object
  is sent as one event message, which carries the second identifier, and the Client
  dispatches that message to the listeners of the proxy registered under the second
  identifier, and to no other proxy.

  This lasts. Whatever messages \<open>later\<close> are handled after the second lookup, none of them
  a lookup that resolves to the object again (and the object being one of the host's
  memory, \<open>a < nextAddr s\<close>): the closure in \<^verbatim>\<open>emit\<close> is still the one over the second
  identifier, and every event sent while a method of the object is invoked, through the
  proxy of either lookup, carries the second identifier. And whatever messages are handled
  after the second lookup, no event is sent any more that carries the first identifier,
  so that the proxy of the first lookup gets none; this last part is for a Server in
  which no other object held a closure over the first identifier before it was minted,
  as is the case in every state reached from one with no closures
  (\<open>fresh_id_reachable\<close>).
\<close>

theorem lookup_rebinds_emit:
  assumes "name \<noteq> []" and "services s name = Some a"
      and "\<not> name_truthy (create m1)" and "lookup m1 = Some name"
      and "\<not> name_truthy (create m2)" and "lookup m2 = Some name"
      and "s1 = state (onMessage s m1)" and "s2 = serve_state s1 ms" and "s3 = state (onMessage s2 m2)"
      and "id1 = mint ''lookup'' name (lastObjectId s + 1)"
      and "id2 = mint ''lookup'' name (lastObjectId s2 + 1)"
  shows "minted (onMessage s m1) = Some id1 \<and> hemit (heap s1 a) = Some id1 \<and>
         minted (onMessage s2 m2) = Some id2 \<and> hemit (heap s3 a) = Some id2 \<and>
         id2 \<noteq> id1 \<and>
         emit_closure (heap s3 a) event as = [event_message id2 event as] \<and>
         client_onMessage c (event_message id2 event as) =
           (case client_objects c id2 of
              None \<Rightarrow> Inl TypeError
            | Some e \<Rightarrow> Inr (c, emit e event as)) \<and>
         (a < nextAddr s \<and> (\<forall>m \<in> set later. \<not> rebinds s a m) \<longrightarrow>
            hemit (heap (serve_state s3 later) a) = Some id2 \<and>
            emit_closure (heap (serve_state s3 later) a) event as = [event_message id2 event as] \<and>
            (\<forall>m e. e \<in> set (sent (onMessage (serve_state s3 later) m)) \<and> is_event e \<and>
                   objects_get (serve_state s3 later) (objectId m) = Some a \<longrightarrow>
                   objectId e = Some id2)) \<and>
         ((\<forall>b. b \<noteq> a \<longrightarrow> hemit (heap s b) \<noteq> Some id1) \<longrightarrow>
            (\<forall>any m e. e \<in> set (sent (onMessage (serve_state s3 any) m)) \<and> is_event e \<longrightarrow>
                   objectId e \<noteq> Some id1))"
proof -
  note first = lookup_known_service [OF assms(1-4)]
  have sv2: "services s2 = services s"
    by (simp add: assms(7,8) serve_state_services onMessage_services)
  then have "services s2 name = Some a" using assms(2) by simp
  note second = lookup_known_service [OF assms(1) this assms(5,6)]
  have l1: "lastObjectId s1 = lastObjectId s + 1" using first by (simp add: assms(7))
  have l2: "lastObjectId s1 \<le> lastObjectId s2"
    unfolding assms(8) by (rule serve_state_lastObjectId_mono)
  have l3: "lastObjectId s2 \<le> lastObjectId s3"
    unfolding assms(9) by (rule onMessage_lastObjectId_mono)
  from l1 l2 have "lastObjectId s2 + 1 \<noteq> lastObjectId s + 1" by simp
  then have diff: "id2 \<noteq> id1"
    unfolding assms(10,11) using mint_inj by blast
  have e: "hemit (heap s3 a) = Some id2" using second by (simp add: assms(9,11))
  then have ev: "emit_closure (heap s3 a) event as = [event_message id2 event as]"
    by (simp add: emit_closure_def)
  have cl: "client_onMessage c (event_message id2 event as) =
      (case client_objects c id2 of None \<Rightarrow> Inl TypeError | Some e \<Rightarrow> Inr (c, emit e event as))"
    by (simp add: client_onMessage_def event_message_def no_fields_def split: option.splits)
  have frame: "hemit (heap (serve_state s3 later) a) = Some id2 \<and>
      emit_closure (heap (serve_state s3 later) a) event as = [event_message id2 event as] \<and>
      (\<forall>m e. e \<in> set (sent (onMessage (serve_state s3 later) m)) \<and> is_event e \<and>
             objects_get (serve_state s3 later) (objectId m) = Some a \<longrightarrow> objectId e = Some id2)"
    if a: "a < nextAddr s" and r: "\<forall>m \<in> set later. \<not> rebinds s a m"
  proof -
    have "nextAddr s \<le> nextAddr s1" unfolding assms(7) by (rule onMessage_nextAddr_mono)
    also have "\<dots> \<le> nextAddr s2" unfolding assms(8) by (rule serve_state_nextAddr_mono)
    also have "\<dots> \<le> nextAddr s3" unfolding assms(9) by (rule onMessage_nextAddr_mono)
    finally have a3: "a < nextAddr s3" using a by simp
    have "services s3 = services s" using sv2 by (simp add: assms(9) onMessage_services)
    then have "rebinds s3 a m = rebinds s a m" for m by (rule rebinds_services)
    then have "\<forall>m \<in> set later. \<not> rebinds s3 a m" using r by simp
    with a3 have "hemit (heap (serve_state s3 later) a) = hemit (heap s3 a)"
      by (rule serve_state_hemit_frame)
    with e have kept: "hemit (heap (serve_state s3 later) a) = Some id2" by simp
    then have "emit_closure (heap (serve_state s3 later) a) event as = [event_message id2 event as]"
      by (simp add: emit_closure_def)
    moreover have "objectId e = Some id2"
      if "e \<in> set (sent (onMessage (serve_state s3 later) m))" and "is_event e"
        and "objects_get (serve_state s3 later) (objectId m) = Some a" for m e
      using onMessage_events [OF that(1,2)] that(3) kept by auto
    ultimately show ?thesis using kept by blast
  qed
  have stale: "objectId e \<noteq> Some id1"
    if fresh: "\<forall>b. b \<noteq> a \<longrightarrow> hemit (heap s b) \<noteq> Some id1"
      and sent: "e \<in> set (sent (onMessage (serve_state s3 any) m))" and event: "is_event e" for any m e
  proof -
    have none: "hemit (heap s3 b) \<noteq> Some id1" for b
    proof (cases "b = a")
      case True
      with e diff show ?thesis by simp
    next
      case False
      with fresh have "hemit (heap s b) \<noteq> Some id1" by simp
      then have "hemit (heap s1 b) \<noteq> Some id1"
        using False assms(1-4) by (auto simp: assms(7) onMessage_hemit origin_def)
      then have "hemit (heap s2 b) \<noteq> Some id1"
        unfolding assms(8,10) using l1 by (intro serve_state_stale) simp_all
      then show ?thesis
        unfolding assms(9,10) using l1 l2 by (intro onMessage_stale) simp_all
    qed
    have "lastObjectId s + 1 \<le> lastObjectId s3" using l1 l2 l3 by simp
    then have "hemit (heap (serve_state s3 any) b) \<noteq> Some id1" for b
      unfolding assms(10) using none [of b] unfolding assms(10) by (rule serve_state_stale)
    moreover from onMessage_events [OF sent event] obtain b where
        "objectId e = hemit (heap (serve_state s3 any) b)" by blast
    ultimately show ?thesis by simp
  qed
  have c1: "minted (onMessage s m1) = Some id1" using first by (simp add: assms(10))
  have c2: "hemit (heap s1 a) = Some id1" using first by (simp add: assms(7,10))
  have c3: "minted (onMessage s2 m2) = Some id2" using second by (simp add: assms(11))
  have c8: "a < nextAddr s \<and> (\<forall>m \<in> set later. \<not> rebinds s a m) \<longrightarrow>
      hemit (heap (serve_state s3 later) a) = Some id2 \<and>
      emit_closure (heap (serve_state s3 later) a) event as = [event_message id2 event as] \<and>
      (\<forall>m e. e \<in> set (sent (onMessage (serve_state s3 later) m)) \<and> is_event e \<and>
             objects_get (serve_state s3 later) (objectId m) = Some a \<longrightarrow> objectId e = Some id2)"
  proof (intro impI, elim conjE)
    assume "a < nextAddr s" and "\<forall>m \<in> set later. \<not> rebinds s a m"
    then show "hemit (heap (serve_state s3 later) a) = Some id2 \<and>
      emit_closure (heap (serve_state s3 later) a) event as = [event_message id2 event as] \<and>
      (\<forall>m e. e \<in> set (sent (onMessage (serve_state s3 later) m)) \<and> is_event e \<and>
             objects_get (serve_state s3 later) (objectId m) = Some a \<longrightarrow> objectId e = Some id2)"
      by (rule frame)
  qed
  have c9: "(\<forall>b. b \<noteq> a \<longrightarrow> hemit (heap s b) \<noteq> Some id1) \<longrightarrow>
      (\<forall>any m e. e \<in> set (sent (onMessage (serve_state s3 any) m)) \<and> is_event e \<longrightarrow>
             objectId e \<noteq> Some id1)"
  proof (intro impI allI, elim conjE)
    fix any m e
    assume "\<forall>b. b \<noteq> a \<longrightarrow> hemit (heap s b) \<noteq> Some id1"
      and "e \<in> set (sent (onMessage (serve_state s3 any) m))" and "is_event e"
    then show "objectId e \<noteq> Some id1" by (rule stale)
  qed
  from c1 c2 c3 e diff ev cl c8 c9 show ?thesis by (intro conjI)
qed

text \<open>
  An instance: \<^verbatim>\<open>settings\<close> looked up, \<^verbatim>\<open>increment\<close> called on the first proxy (the event
  carries the first identifier), and \<^verbatim>\<open>settings\<close> looked up again. When \<^verbatim>\<open>increment\<close>
  is then called again through the first proxy, the event carries the second identifier,
  and of the two handlers only handler 2, on the second proxy, is called.
\<close>

theorem lookup_rebinds_emit_witness:
  "services settings_server ''settings'' = Some 0 \<and> 0 < nextAddr settings_server \<and>
   \<not> rebinds settings_server 0 call_settings \<and>
   objects_get after_second_lookup (objectId call_settings) = Some 0 \<and>
   minted (onMessage settings_server (lookup_settings 1)) = Some ''lookup#settings#1#'' \<and>
   sent (onMessage (state (onMessage settings_server (lookup_settings 1))) call_settings) ! 0
     = event_message ''lookup#settings#1#'' ''changed'' [JNum 1] \<and>
   minted (onMessage (serve_state (state (onMessage settings_server (lookup_settings 1))) [call_settings])
            (lookup_settings 3)) = Some ''lookup#settings#2#'' \<and>
   emit_closure (heap after_second_lookup 0) ''changed'' [JNum 2]
     = [event_message ''lookup#settings#2#'' ''changed'' [JNum 2]] \<and>
   sent (onMessage after_second_lookup call_settings) ! 0
     = event_message ''lookup#settings#2#'' ''changed'' [JNum 2] \<and>
   objectId (sent (onMessage after_second_lookup call_settings) ! 0) \<noteq> Some ''lookup#settings#1#'' \<and>
   hemit (heap (serve_state after_second_lookup [call_settings]) 0) = Some ''lookup#settings#2#'' \<and>
   client_onMessage two_proxies (event_message ''lookup#settings#2#'' ''changed'' [JNum 2])
     = Inr (two_proxies, [(2, [JNum 2])])"
proof -
  define s1 where "s1 = state (onMessage settings_server (lookup_settings 1))"
  define s2 where "s2 = serve_state s1 [call_settings]"
  have s3: "after_second_lookup = state (onMessage s2 (lookup_settings 3))"
    by (simp add: after_second_lookup_def s2_def s1_def)
  have n: "''settings'' \<noteq> []" by simp
  note settings = settings_server_def lookup_settings_def call_settings_def Counter_def
    counter_proto_def increment_def
  have sv: "services settings_server ''settings'' = Some 0"
    by (simp add: settings_server_def exposeObject_def)
  have na: "0 < nextAddr settings_server"
    by (simp add: settings_server_def exposeObject_def alloc_def Server_def)
  have nr: "\<not> rebinds settings_server 0 call_settings"
    by (simp add: rebinds_def origin_def call_settings_def no_fields_def)
  have later: "\<forall>m \<in> set [call_settings]. \<not> rebinds settings_server 0 m"
    using nr by simp
  have l: "\<not> name_truthy (create (lookup_settings k))" "lookup (lookup_settings k) = Some ''settings''" for k
    by (simp_all add: lookup_settings_def no_fields_def)
  have id1: "mint ''lookup'' ''settings'' (lastObjectId settings_server + 1) = ''lookup#settings#1#''"
    by (simp add: server_eval settings)
  have "lastObjectId s2 = 1"
    unfolding s2_def s1_def by (simp add: server_eval settings)
  then have id2: "mint ''lookup'' ''settings'' (lastObjectId s2 + 1) = ''lookup#settings#2#''"
    by (simp add: mint_def show_nat.simps digit_char_def)
  have fresh: "\<forall>b. b \<noteq> 0 \<longrightarrow> hemit (heap settings_server b) \<noteq> Some ''lookup#settings#1#''"
    by (simp add: settings_server_def exposeObject_def alloc_def Server_def new_object_def)
  have ev1: "sent (onMessage s1 call_settings) ! 0 = event_message ''lookup#settings#1#'' ''changed'' [JNum 1]"
    unfolding s1_def by (simp add: server_eval settings)
  have run: "sent (onMessage after_second_lookup call_settings) =
      [event_message ''lookup#settings#2#'' ''changed'' [JNum 2],
       no_fields\<lparr>id := Some 2, objectId := Some ''lookup#settings#1#'', result := Some (JNum 2)\<rparr>]"
    by (simp add: after_second_lookup_def server_eval settings)
  have og: "objects_get after_second_lookup (objectId call_settings) = Some 0"
    by (simp add: after_second_lookup_def server_eval settings)
  have ev2: "sent (onMessage after_second_lookup call_settings) ! 0
      = event_message ''lookup#settings#2#'' ''changed'' [JNum 2]"
    by (simp add: run)
  have first_event: "sent (onMessage after_second_lookup call_settings) ! 0
      \<in> set (sent (onMessage (serve_state after_second_lookup []) call_settings))"
    by (simp add: run)
  have is_ev: "is_event (sent (onMessage after_second_lookup call_settings) ! 0)"
    by (simp add: ev2 is_event_def event_message_def no_fields_def)
  have cl: "client_objects two_proxies ''lookup#settings#2#''
      = Some (on ((EventEmitter ''lookup#settings#2#'')\<lparr>stubs := [''increment'']\<rparr>) ''changed'' 2)"
    by (simp add: two_proxies_def proxy_on_def wrap_def Client_def)
  note th = lookup_rebinds_emit [OF n sv l [of 1] l [of 3] s1_def s2_def s3 refl refl,
      where event = "''changed''" and as = "[JNum 2]" and c = two_proxies
        and later = "[call_settings]"]
  from th have "minted (onMessage settings_server (lookup_settings 1)) = Some ''lookup#settings#1#''"
      and "minted (onMessage s2 (lookup_settings 3)) = Some ''lookup#settings#2#''"
      and "emit_closure (heap after_second_lookup 0) ''changed'' [JNum 2]
             = [event_message ''lookup#settings#2#'' ''changed'' [JNum 2]]"
      and "client_onMessage two_proxies (event_message ''lookup#settings#2#'' ''changed'' [JNum 2])
             = Inr (two_proxies, [(2, [JNum 2])])"
    unfolding id1 id2 by (simp_all add: cl emit_def on_def EventEmitter_def)
  moreover from th na later have "hemit (heap (serve_state after_second_lookup [call_settings]) 0)
      = Some ''lookup#settings#2#''"
    unfolding id1 id2 by blast
  moreover from th fresh first_event is_ev
  have "objectId (sent (onMessage after_second_lookup call_settings) ! 0) \<noteq> Some ''lookup#settings#1#''"
    unfolding id1 id2 by blast
  ultimately show ?thesis using sv na nr og ev1 ev2 unfolding s1_def s2_def by blast
qed

end
